theory Spec2Isabelle
  imports Main
begin

section \<open>The Connection screen of packages/legacy/core/App/screens/Connection.tsx\<close>

text \<open>
  The screen is a React function component. Its logic is one reducer state
  (\<open>LocalState\<close>), one mutable ref (\<open>timerRef\<close>), three callbacks and six
  effects, five of which react to the state and to the values of three hooks (the
  out-of-band record, the connection and the notification feed). The embedding makes
  React's evaluation order explicit:

  \<^item> a render sees one snapshot of the state and of the hook values; every effect of
    that render reads this snapshot, also after an earlier effect of the same render has
    called \<open>dispatch\<close>;
  \<^item> after a render the effects whose dependency array changed run in the order of
    their declaration; the \<open>dispatch\<close> calls they make are queued and applied with
    the reducer \<open>merge\<close> in the order they were made, which gives the state of the
    next render;
  \<^item> calls to the navigator and to the accessibility service happen at once, in
    program order, and are recorded in a log.

  Logger calls and the effect that intercepts the hardware back button (source lines 98
  to 101) are left out: they neither read nor write anything the rest of the screen uses.
\<close>

subsection \<open>Records observed by the screen\<close>

text \<open>The \<open>type\<close> discriminator of a notification; the last constructor stands for
  every notification that is none of the five record classes the file imports.\<close>

datatype RecordType =
    BasicMessageRecord
  | CredentialExchangeRecord
  | ProofExchangeRecord
  | W3cCredentialRecord
  | SdJwtVcRecord
  | CustomNotification

text \<open>The fields of a notification that the screen reads. \<open>connectionId\<close> and
  \<open>threadId\<close> are \<open>None\<close> where the JavaScript object has no such property.\<close>

record NotificationRecord =
  record_type :: RecordType
  notif_id :: string
  connectionId :: "string option"
  threadId :: "string option"

record ConnectionRecord =
  conn_id :: string

text \<open>\<open>goalCode\<close> is \<open>oobRecord.outOfBandInvitation.goalCode\<close>;
  \<open>invitationRequestsThreadIds\<close> is \<open>oobRecord.getTags()?.invitationRequestsThreadIds\<close>.\<close>

record OutOfBandRecord =
  goalCode :: "string option"
  invitationRequestsThreadIds :: "string list option"

definition proofRequestVerify :: string where
  "proofRequestVerify = ''aries.vc.verify''"

definition proofRequestVerifyOnce :: string where
  "proofRequestVerifyOnce = ''aries.vc.verify.once''"

definition credentialOffer :: string where
  "credentialOffer = ''aries.vc.issue''"

text \<open>\<open>Object.values(GoalCodes)\<close>.\<close>

definition GoalCodes :: "string list" where
  "GoalCodes = [proofRequestVerify, proofRequestVerifyOnce, credentialOffer]"

text \<open>The operator \<open>??\<close> on an optional string.\<close>

definition nullish :: "string option \<Rightarrow> string \<Rightarrow> string" where
  "nullish v d = (case v of None \<Rightarrow> d | Some x \<Rightarrow> x)"

subsection \<open>Local state and its reducer\<close>

record LocalState =
  inProgress :: bool
  notificationRecord :: "NotificationRecord option"
  shouldShowDelayMessage :: bool

text \<open>\<open>Partial<LocalState>\<close>: \<open>None\<close> is a key that the object literal does not
  have. No \<open>dispatch\<close> of the file passes the key \<open>notificationRecord\<close> with the
  value \<open>undefined\<close>, so one level of \<open>option\<close> is enough for it.\<close>

record PartialLocalState =
  next_inProgress :: "bool option"
  next_notificationRecord :: "NotificationRecord option"
  next_shouldShowDelayMessage :: "bool option"

definition noFields :: PartialLocalState where
  "noFields = \<lparr>next_inProgress = None, next_notificationRecord = None,
     next_shouldShowDelayMessage = None\<rparr>"

text \<open>\<open>merge = (current, next) => ({ ...current, ...next })\<close>.\<close>

definition merge :: "LocalState \<Rightarrow> PartialLocalState \<Rightarrow> LocalState" where
  "merge current nxt =
     \<lparr>inProgress = (case next_inProgress nxt of None \<Rightarrow> inProgress current | Some b \<Rightarrow> b),
      notificationRecord =
        (case next_notificationRecord nxt of None \<Rightarrow> notificationRecord current
         | Some n \<Rightarrow> Some n),
      shouldShowDelayMessage =
        (case next_shouldShowDelayMessage nxt of None \<Rightarrow> shouldShowDelayMessage current
         | Some b \<Rightarrow> b)\<rparr>"

text \<open>The initial state passed to \<open>useReducer\<close>.\<close>

definition initialState :: LocalState where
  "initialState = \<lparr>inProgress = True, notificationRecord = None,
     shouldShowDelayMessage = False\<rparr>"

subsection \<open>Services, hook values and external calls\<close>

text \<open>What the container and the navigator give the screen once, for its lifetime:
  the two configuration values and whether \<open>navigation.getParent()\<close> is defined.\<close>

record Services =
  connectionTimerDelay :: "nat option"
  autoRedirectConnectionToHome :: bool
  parentNavigator :: bool

text \<open>\<open>connTimerDelay = connectionTimerDelay ?? 10000\<close>.\<close>

definition connTimerDelay :: "Services \<Rightarrow> nat" where
  "connTimerDelay sv = (case connectionTimerDelay sv of None \<Rightarrow> 10000 | Some d \<Rightarrow> d)"

text \<open>The values of \<open>useOutOfBandById\<close>, \<open>useConnectionByOutOfBandId\<close> and
  \<open>useNotifications\<close> at one render.\<close>

record Hooks =
  oobRecord :: "OutOfBandRecord option"
  connection :: "ConnectionRecord option"
  notifications :: "NotificationRecord list"

text \<open>The calls that leave the screen:
  \<^item> \<open>NavigateHome\<close>: \<open>navigation.getParent()?.navigate(TabStacks.HomeStack, { screen: Screens.Home })\<close>;
  \<^item> \<open>ResetToChat c\<close>: \<open>navigation.getParent()?.dispatch(CommonActions.reset(...))\<close> with the
    route \<open>Screens.Chat\<close> and \<open>connectionId = c\<close>;
  \<^item> \<open>ReplaceProofRequest p\<close>: \<open>navigation.replace(Screens.ProofRequest, { proofId: p })\<close>;
  \<^item> \<open>ReplaceCredentialOffer c\<close>: \<open>navigation.replace(Screens.CredentialOffer, { credentialId: c })\<close>;
  \<^item> \<open>ReplaceOpenIDCredentialDetails r\<close>: \<open>navigation.replace(Screens.OpenIDCredentialDetails, { credential: r })\<close>;
  \<^item> \<open>AnnounceTakingTooLong\<close>: \<open>AccessibilityInfo.announceForAccessibility(t('Connection.TakingTooLong'))\<close>.\<close>

datatype Call =
    NavigateHome
  | ResetToChat string
  | ReplaceProofRequest string
  | ReplaceCredentialOffer string
  | ReplaceOpenIDCredentialDetails NotificationRecord
  | AnnounceTakingTooLong

text \<open>What one effect does: the partial states it dispatches and the calls it makes.\<close>

type_synonym Effect = "PartialLocalState list \<times> Call list"

definition noEffect :: Effect where
  "noEffect = ([], [])"

text \<open>A call through \<open>navigation.getParent()?.\<close> is made only when the parent exists.\<close>

definition viaParent :: "Services \<Rightarrow> Call \<Rightarrow> Call list" where
  "viaParent sv c = (if parentNavigator sv then [c] else [])"

subsection \<open>The effects\<close>

text \<open>The effect on \<open>shouldShowDelayMessage\<close> (source lines 103 to 112).\<close>

definition delayEffect :: "Services \<Rightarrow> LocalState \<Rightarrow> Effect" where
  "delayEffect sv s =
     (if shouldShowDelayMessage s \<and> notificationRecord s = None then
        (if autoRedirectConnectionToHome sv then
           ([noFields\<lparr>next_shouldShowDelayMessage := Some False, next_inProgress := Some False\<rparr>],
            viaParent sv NavigateHome)
         else ([], [AnnounceTakingTooLong]))
      else noEffect)"

text \<open>The routing effect (source lines 114 to 187). The second test of \<open>!oobRecord\<close>
  (line 152) cannot succeed after the first one (line 115) and has no branch here.\<close>

definition routerEffect :: "Services \<Rightarrow> Hooks \<Rightarrow> LocalState \<Rightarrow> Effect" where
  "routerEffect sv h s =
     (case oobRecord h of
        None \<Rightarrow> noEffect
      | Some oob \<Rightarrow>
          if \<not> inProgress s then noEffect
          else
            (case (connection h, nullish (goalCode oob) '''' \<in> set GoalCodes) of
               (Some c, False) \<Rightarrow>
                 ([noFields\<lparr>next_inProgress := Some False\<rparr>],
                  viaParent sv (ResetToChat (conn_id c)))
             | _ \<Rightarrow>
                 (case notificationRecord s of
                    None \<Rightarrow> noEffect
                  | Some n \<Rightarrow>
                      (case connection h of
                         None \<Rightarrow>
                           ([noFields\<lparr>next_inProgress := Some False\<rparr>],
                            [ReplaceProofRequest (notif_id n)])
                       | Some c \<Rightarrow>
                           if goalCode oob = Some proofRequestVerify
                              \<or> goalCode oob = Some proofRequestVerifyOnce then
                             ([noFields\<lparr>next_inProgress := Some False\<rparr>],
                              [ReplaceProofRequest (notif_id n)])
                           else if goalCode oob = Some credentialOffer then
                             ([noFields\<lparr>next_inProgress := Some False\<rparr>],
                              [ReplaceCredentialOffer (notif_id n)])
                           else
                             ([noFields\<lparr>next_inProgress := Some False\<rparr>],
                              viaParent sv (ResetToChat (conn_id c)))))))"

text \<open>The effect for OpenID credentials (source lines 190 to 206).\<close>

definition openIDEffect :: "LocalState \<Rightarrow> Effect" where
  "openIDEffect s =
     (if \<not> inProgress s then noEffect
      else
        (case notificationRecord s of
           None \<Rightarrow> noEffect
         | Some n \<Rightarrow>
             if record_type n = W3cCredentialRecord \<or> record_type n = SdJwtVcRecord then
               ([noFields\<lparr>next_inProgress := Some False\<rparr>],
                [ReplaceOpenIDCredentialDetails n])
             else noEffect))"

text \<open>\<open>oobRecord?.getTags()?.invitationRequestsThreadIds?.includes(x)\<close>; an undefined link
  of the chain makes the whole test falsy.\<close>

definition threadIdsInclude :: "OutOfBandRecord option \<Rightarrow> string \<Rightarrow> bool" where
  "threadIdsInclude oob x =
     (case oob of
        None \<Rightarrow> False
      | Some r \<Rightarrow> (case invitationRequestsThreadIds r of None \<Rightarrow> False | Some ids \<Rightarrow> x \<in> set ids))"

text \<open>The loop of the matching effect (source lines 218 to 245): the notification that
  is dispatched, if any. \<open>continue\<close> and falling off the loop body are the recursive
  calls, \<open>break\<close> after a \<open>dispatch\<close> is the returned notification.\<close>

fun matcherLoop ::
  "ConnectionRecord option \<Rightarrow> OutOfBandRecord option \<Rightarrow> NotificationRecord list
    \<Rightarrow> NotificationRecord option" where
  "matcherLoop c oob [] = None"
| "matcherLoop c oob (n # ns) =
     (if record_type n = BasicMessageRecord then matcherLoop c oob ns
      else if (case c of None \<Rightarrow> False | Some c' \<Rightarrow> connectionId n = Some (conn_id c'))
              \<or> threadIdsInclude oob (nullish (threadId n) '''')
        then Some n
      else if record_type n = W3cCredentialRecord then Some n
      else if record_type n = SdJwtVcRecord then Some n
      else matcherLoop c oob ns)"

text \<open>The matching effect (source lines 213 to 246).\<close>

definition matcherEffect :: "Hooks \<Rightarrow> LocalState \<Rightarrow> Effect" where
  "matcherEffect h s =
     (if \<not> inProgress s \<or> notificationRecord s \<noteq> None then noEffect
      else
        (case matcherLoop (connection h) (oobRecord h) (notifications h) of
           None \<Rightarrow> noEffect
         | Some n \<Rightarrow> ([noFields\<lparr>next_notificationRecord := Some n\<rparr>], [])))"

subsection \<open>Dependency arrays\<close>

text \<open>Why a render happens: the first render, new hook values (with the hook values of
  the render before), or a processed \<open>dispatch\<close> (with the state of the render before).
  The reducer builds a new object at every call, so a \<open>dispatch\<close> always leads to a
  render with a new \<open>state\<close> object. Dependencies are compared by value; \<open>dispatch\<close>,
  \<open>navigation\<close>, \<open>logger\<close>, \<open>t\<close> and the configuration do not change during the
  lifetime of the screen.\<close>

datatype Trigger = Mounting | HooksChanged Hooks | Dispatched LocalState

text \<open>\<open>[state.shouldShowDelayMessage, state.notificationRecord, autoRedirectConnectionToHome, dispatch, navigation, t]\<close>.\<close>

fun delayDepsChanged :: "Trigger \<Rightarrow> LocalState \<Rightarrow> bool" where
  "delayDepsChanged Mounting s = True"
| "delayDepsChanged (HooksChanged ph) s = False"
| "delayDepsChanged (Dispatched ps) s =
     (shouldShowDelayMessage ps \<noteq> shouldShowDelayMessage s
      \<or> notificationRecord ps \<noteq> notificationRecord s)"

text \<open>\<open>[oobRecord, state.inProgress, connection, logger, dispatch, navigation, state.notificationRecord]\<close>.\<close>

fun routerDepsChanged :: "Trigger \<Rightarrow> Hooks \<Rightarrow> LocalState \<Rightarrow> bool" where
  "routerDepsChanged Mounting h s = True"
| "routerDepsChanged (HooksChanged ph) h s =
     (oobRecord ph \<noteq> oobRecord h \<or> connection ph \<noteq> connection h)"
| "routerDepsChanged (Dispatched ps) h s =
     (inProgress ps \<noteq> inProgress s \<or> notificationRecord ps \<noteq> notificationRecord s)"

text \<open>\<open>[state, logger, navigation]\<close>.\<close>

fun openIDDepsChanged :: "Trigger \<Rightarrow> bool" where
  "openIDDepsChanged Mounting = True"
| "openIDDepsChanged (HooksChanged ph) = False"
| "openIDDepsChanged (Dispatched ps) = True"

text \<open>\<open>[state.inProgress, state.notificationRecord, notifications, logger, connection, oobRecord, dispatch]\<close>.\<close>

fun matcherDepsChanged :: "Trigger \<Rightarrow> Hooks \<Rightarrow> LocalState \<Rightarrow> bool" where
  "matcherDepsChanged Mounting h s = True"
| "matcherDepsChanged (HooksChanged ph) h s =
     (notifications ph \<noteq> notifications h \<or> connection ph \<noteq> connection h
      \<or> oobRecord ph \<noteq> oobRecord h)"
| "matcherDepsChanged (Dispatched ps) h s =
     (inProgress ps \<noteq> inProgress s \<or> notificationRecord ps \<noteq> notificationRecord s)"

subsection \<open>One render and the renders that follow from it\<close>

definition whenChanged :: "bool \<Rightarrow> Effect \<Rightarrow> Effect" where
  "whenChanged b e = (if b then e else noEffect)"

definition andThen :: "Effect \<Rightarrow> Effect \<Rightarrow> Effect" where
  "andThen e1 e2 = (fst e1 @ fst e2, snd e1 @ snd e2)"

text \<open>The state-reading effects of one render, in the order of their declaration, all
  on the snapshot \<open>s\<close> of that render.\<close>

definition runEffects :: "Services \<Rightarrow> Trigger \<Rightarrow> Hooks \<Rightarrow> LocalState \<Rightarrow> Effect" where
  "runEffects sv tr h s =
     andThen (whenChanged (delayDepsChanged tr s) (delayEffect sv s))
       (andThen (whenChanged (routerDepsChanged tr h s) (routerEffect sv h s))
          (andThen (whenChanged (openIDDepsChanged tr) (openIDEffect s))
             (whenChanged (matcherDepsChanged tr h s) (matcherEffect h s))))"

text \<open>The number of fields that an effect can still change: every \<open>dispatch\<close> of an
  effect clears \<open>inProgress\<close> or \<open>shouldShowDelayMessage\<close>, or sets
  \<open>notificationRecord\<close>.\<close>

definition openFields :: "LocalState \<Rightarrow> nat" where
  "openFields s =
     (if inProgress s then 1 else 0) + (if notificationRecord s = None then 1 else 0)
     + (if shouldShowDelayMessage s then 1 else 0)"

text \<open>Render, run the effects, apply the queued dispatches, and render again until a
  render dispatches nothing. The result is the state of the last render and all calls
  made on the way.\<close>

function flush :: "Services \<Rightarrow> Trigger \<Rightarrow> Hooks \<Rightarrow> LocalState \<Rightarrow> LocalState \<times> Call list" where
  "flush sv tr h s =
     (case runEffects sv tr h s of
        (ds, cs) \<Rightarrow>
          if ds = [] then (s, cs)
          else
            (case flush sv (Dispatched s) h (foldl merge s ds) of
               (s', cs') \<Rightarrow> (s', cs @ cs')))"
  by pat_completeness auto
termination
proof (relation "measure (\<lambda>(sv, tr, h, s). openFields s)")
  show "wf (measure (\<lambda>(sv, tr, h, s). openFields s))"
    by simp
next
  fix sv :: Services and tr :: Trigger and h :: Hooks and s :: LocalState
    and ds :: "PartialLocalState list" and cs :: "Call list"
  assume dc: "(ds, cs) = runEffects sv tr h s" and ne: "ds \<noteq> []"
  let ?lowers = "\<lambda>d. next_inProgress d \<noteq> Some True \<and> next_shouldShowDelayMessage d \<noteq> Some True"
  let ?opens = "\<lambda>d. openFields (merge s d) < openFields s"
  have lower_one: "openFields (merge s' d) \<le> openFields s'" if "?lowers d" for s' d
    using that by (cases "next_inProgress d"; cases "next_notificationRecord d";
        cases "next_shouldShowDelayMessage d") (simp_all add: merge_def openFields_def)
  have lower_all: "openFields (foldl merge s' es) \<le> openFields s'" if "\<forall>d\<in>set es. ?lowers d" for s' es
    using that
  proof (induction es arbitrary: s')
    case Nil
    then show ?case by simp
  next
    case (Cons e es)
    have "openFields (foldl merge (merge s' e) es) \<le> openFields (merge s' e)"
      using Cons by simp
    also have "\<dots> \<le> openFields s'"
      using Cons.prems lower_one by simp
    finally show ?case by simp
  qed
  have e1: "\<forall>d\<in>set (fst (delayEffect sv s)). ?lowers d \<and> ?opens d"
    by (auto simp: delayEffect_def noEffect_def noFields_def merge_def openFields_def)
  have r: "fst (routerEffect sv h s) = []
      \<or> inProgress s \<and> fst (routerEffect sv h s) = [noFields\<lparr>next_inProgress := Some False\<rparr>]"
    by (auto simp: routerEffect_def noEffect_def split: option.split bool.split)
  have e2: "\<forall>d\<in>set (fst (routerEffect sv h s)). ?lowers d \<and> ?opens d"
    using r by (auto simp: noFields_def merge_def openFields_def)
  have e3: "\<forall>d\<in>set (fst (openIDEffect s)). ?lowers d \<and> ?opens d"
    by (auto simp: openIDEffect_def noEffect_def noFields_def merge_def openFields_def
        split: option.split)
  have e4: "\<forall>d\<in>set (fst (matcherEffect h s)). ?lowers d \<and> ?opens d"
    by (auto simp: matcherEffect_def noEffect_def noFields_def merge_def openFields_def
        split: option.split)
  have "set ds \<subseteq> set (fst (delayEffect sv s)) \<union> set (fst (routerEffect sv h s))
      \<union> set (fst (openIDEffect s)) \<union> set (fst (matcherEffect h s))"
    using arg_cong [OF dc, of fst] by (auto simp: runEffects_def andThen_def whenChanged_def noEffect_def)
  then have all: "\<forall>d\<in>set ds. ?lowers d \<and> ?opens d"
    using e1 e2 e3 e4 by blast
  obtain d ds' where ds: "ds = d # ds'"
    using ne by (cases ds) auto
  have "openFields (foldl merge s ds) = openFields (foldl merge (merge s d) ds')"
    by (simp add: ds)
  also have "\<dots> \<le> openFields (merge s d)"
    using all ds by (intro lower_all) simp
  also have "\<dots> < openFields s"
    using all ds by simp
  finally show "((sv, Dispatched s, h, foldl merge s ds), (sv, tr, h, s))
      \<in> measure (\<lambda>(sv, tr, h, s). openFields s)"
    by simp
qed

subsection \<open>The mounted screen\<close>

text \<open>One instance of the screen: the reducer state, the hook values of the last
  render, \<open>timerRef.current\<close>, the timeouts that the JavaScript runtime still holds (handle
  and delay), the next free handle, whether the component is mounted, and the log of
  calls made so far.\<close>

record Instance =
  state :: LocalState
  hooks :: Hooks
  timerRef :: "nat option"
  timeouts :: "(nat \<times> nat) list"
  nextHandle :: nat
  mounted :: bool
  calls :: "Call list"

text \<open>\<open>startTimer\<close>: \<open>timerRef.current = setTimeout(..., connTimerDelay)\<close>.\<close>

definition startTimer :: "Services \<Rightarrow> Instance \<Rightarrow> Instance" where
  "startTimer sv inst =
     inst\<lparr>timeouts := timeouts inst @ [(nextHandle inst, connTimerDelay sv)],
          timerRef := Some (nextHandle inst),
          nextHandle := Suc (nextHandle inst)\<rparr>"

text \<open>\<open>clearTimeout\<close> of the runtime.\<close>

definition clearTimeout :: "nat \<Rightarrow> (nat \<times> nat) list \<Rightarrow> (nat \<times> nat) list" where
  "clearTimeout t ts = filter (\<lambda>p. fst p \<noteq> t) ts"

text \<open>\<open>abortTimer\<close>. Handles are positive, so a handle in the ref is truthy.\<close>

definition abortTimer :: "Instance \<Rightarrow> Instance" where
  "abortTimer inst =
     (case timerRef inst of
        None \<Rightarrow> inst
      | Some t \<Rightarrow> inst\<lparr>timeouts := clearTimeout t (timeouts inst), timerRef := None\<rparr>)"

text \<open>A render of the instance with all renders that follow from it.\<close>

definition render :: "Services \<Rightarrow> Trigger \<Rightarrow> Instance \<Rightarrow> Instance" where
  "render sv tr inst =
     (case flush sv tr (hooks inst) (state inst) of
        (s', cs) \<Rightarrow> inst\<lparr>state := s', calls := calls inst @ cs\<rparr>)"

text \<open>Mounting with the hook values \<open>h\<close>. The effect of source lines 208 to 211 runs
  once, here: its dependencies \<open>startTimer\<close> and \<open>abortTimer\<close> change only with the
  configured delay. It touches the timer only, so its place among the other effects of
  the first render does not matter.\<close>

definition mount :: "Services \<Rightarrow> Hooks \<Rightarrow> Instance" where
  "mount sv h =
     render sv Mounting
       (startTimer sv
          \<lparr>state = initialState, hooks = h, timerRef = None, timeouts = [],
           nextHandle = 1, mounted = True, calls = []\<rparr>)"

text \<open>What can happen to a mounted screen: the hooks deliver new values, the runtime
  fires the timeout with a given handle, the user presses the button, React unmounts the
  screen.\<close>

datatype Event = Update Hooks | TimerFired nat | DismissModalTouched | Unmount

text \<open>The callback of \<open>setTimeout\<close> (source lines 79 to 82) dispatches and clears the
  ref; \<open>onDismissModalTouched\<close> (lines 93 to 96) dispatches and navigates; unmounting
  runs the cleanup \<open>abortTimer\<close>. React ignores a \<open>dispatch\<close> on an unmounted
  component, and an unmounted component gets no hook values and no touches.\<close>

fun step :: "Services \<Rightarrow> Event \<Rightarrow> Instance \<Rightarrow> Instance" where
  "step sv (Update h) inst =
     (if mounted inst then render sv (HooksChanged (hooks inst)) (inst\<lparr>hooks := h\<rparr>)
      else inst)"
| "step sv (TimerFired t) inst =
     (if t \<in> set (map fst (timeouts inst)) then
        (if mounted inst then
           render sv (Dispatched (state inst))
             (inst\<lparr>timeouts := clearTimeout t (timeouts inst), timerRef := None,
                   state := merge (state inst) (noFields\<lparr>next_shouldShowDelayMessage := Some True\<rparr>)\<rparr>)
         else inst\<lparr>timeouts := clearTimeout t (timeouts inst), timerRef := None\<rparr>)
      else inst)"
| "step sv DismissModalTouched inst =
     (if mounted inst then
        render sv (Dispatched (state inst))
          (inst\<lparr>state := merge (state inst)
                   (noFields\<lparr>next_shouldShowDelayMessage := Some False, next_inProgress := Some False\<rparr>),
                calls := calls inst @ viaParent sv NavigateHome\<rparr>)
      else inst)"
| "step sv Unmount inst =
     (if mounted inst then (abortTimer inst)\<lparr>mounted := False\<rparr> else inst)"

fun run :: "Services \<Rightarrow> Event list \<Rightarrow> Instance \<Rightarrow> Instance" where
  "run sv [] inst = inst"
| "run sv (e # es) inst = run sv es (step sv e inst)"

subsection \<open>Auxiliary notions\<close>

text \<open>How the state can move while effects run: \<open>inProgress\<close> and
  \<open>shouldShowDelayMessage\<close> are never raised, and a notification that is set, or
  the notification field of a state that is no longer in progress, stays as it is.\<close>

definition settles :: "LocalState \<Rightarrow> LocalState \<Rightarrow> bool" where
  "settles s s' =
     ((inProgress s' \<longrightarrow> inProgress s)
      \<and> (shouldShowDelayMessage s' \<longrightarrow> shouldShowDelayMessage s)
      \<and> (notificationRecord s \<noteq> None \<or> \<not> inProgress s
           \<longrightarrow> notificationRecord s' = notificationRecord s))"

text \<open>Which effect a call comes from: the router, the OpenID effect, or the delay
  effect (the dismiss button makes the call \<open>NavigateHome\<close> too).\<close>

fun routerCall :: "Call \<Rightarrow> bool" where
  "routerCall (ResetToChat c) = True"
| "routerCall (ReplaceProofRequest p) = True"
| "routerCall (ReplaceCredentialOffer c) = True"
| "routerCall c = False"

fun openIDCall :: "Call \<Rightarrow> bool" where
  "openIDCall (ReplaceOpenIDCredentialDetails r) = True"
| "openIDCall c = False"

fun delayCall :: "Call \<Rightarrow> bool" where
  "delayCall NavigateHome = True"
| "delayCall AnnounceTakingTooLong = True"
| "delayCall c = False"

definition decidesOnce :: "Instance \<Rightarrow> bool" where
  "decidesOnce i =
     (length (filter routerCall (calls i)) \<le> 1 \<and> length (filter openIDCall (calls i)) \<le> 1
      \<and> (inProgress (state i)
           \<longrightarrow> filter routerCall (calls i) = [] \<and> filter openIDCall (calls i) = []))"

definition watchdogSound :: "Instance \<Rightarrow> bool" where
  "watchdogSound i =
     (case timeouts i of
        [] \<Rightarrow> True
      | [p] \<Rightarrow> mounted i \<and> timerRef i = Some (fst p) \<and> \<not> shouldShowDelayMessage (state i)
               \<and> AnnounceTakingTooLong \<notin> set (calls i)
      | _ \<Rightarrow> False)"

fun isDismiss :: "Event \<Rightarrow> bool" where
  "isDismiss DismissModalTouched = True"
| "isDismiss e = False"

text \<open>A feed that holds basic messages only, an event that delivers such a feed or
  none, the calls that the routing steps 4 to 6 make, and a screen that has seen basic
  messages only and has matched nothing.\<close>

definition basicOnly :: "Hooks \<Rightarrow> bool" where
  "basicOnly h = list_all (\<lambda>n. record_type n = BasicMessageRecord) (notifications h)"

fun basicOnlyEvent :: "Event \<Rightarrow> bool" where
  "basicOnlyEvent (Update h) = basicOnly h"
| "basicOnlyEvent e = True"

fun matchCall :: "Call \<Rightarrow> bool" where
  "matchCall (ReplaceProofRequest p) = True"
| "matchCall (ReplaceCredentialOffer c) = True"
| "matchCall (ReplaceOpenIDCredentialDetails r) = True"
| "matchCall c = False"

definition unmatched :: "Instance \<Rightarrow> bool" where
  "unmatched i =
     (basicOnly (hooks i) \<and> notificationRecord (state i) = None
      \<and> list_all (\<lambda>c. \<not> matchCall c) (calls i))"

text \<open>The routing effect has nothing to do on the hook values and the state of the last
  render, as long as the screen is in progress.\<close>

definition routerIdle :: "Services \<Rightarrow> Instance \<Rightarrow> bool" where
  "routerIdle sv i = (inProgress (state i) \<longrightarrow> routerEffect sv (hooks i) (state i) = noEffect)"

text \<open>The matching loop selects nothing from the hook values of the last render, as
  long as the screen is in progress and has no notification.\<close>

definition matcherIdle :: "Instance \<Rightarrow> bool" where
  "matcherIdle i =
     (inProgress (state i) \<and> notificationRecord (state i) = None
      \<longrightarrow> matcherLoop (connection (hooks i)) (oobRecord (hooks i)) (notifications (hooks i)) = None)"

subsection \<open>Example values\<close>

text \<open>Two configurations, with and without auto-redirect; a basic message, a
  credential offer on the connection \<open>conn-1\<close>, a proof request on the thread
  \<open>thread-9\<close> and a W3C credential without connection or thread; three invitations;
  and the hook values of a screen that waits, that has received an offer, that has
  received a proof request, that has a connection without a known goal code, that has a connection and an offer but
  no invitation yet, and that has an invitation, a connection and a W3C credential.\<close>

definition noticeServices :: Services where
  "noticeServices = \<lparr>connectionTimerDelay = None, autoRedirectConnectionToHome = False,
     parentNavigator = True\<rparr>"

definition redirectServices :: Services where
  "redirectServices = \<lparr>connectionTimerDelay = None, autoRedirectConnectionToHome = True,
     parentNavigator = True\<rparr>"

definition basicMessage :: NotificationRecord where
  "basicMessage = \<lparr>record_type = BasicMessageRecord, notif_id = ''msg-1'',
     connectionId = Some ''conn-1'', threadId = Some ''thread-0''\<rparr>"

definition offerNotification :: NotificationRecord where
  "offerNotification = \<lparr>record_type = CredentialExchangeRecord, notif_id = ''cred-1'',
     connectionId = Some ''conn-1'', threadId = Some ''thread-1''\<rparr>"

definition proofNotification :: NotificationRecord where
  "proofNotification = \<lparr>record_type = ProofExchangeRecord, notif_id = ''proof-1'',
     connectionId = None, threadId = Some ''thread-9''\<rparr>"

definition w3cNotification :: NotificationRecord where
  "w3cNotification = \<lparr>record_type = W3cCredentialRecord, notif_id = ''w3c-1'',
     connectionId = None, threadId = None\<rparr>"

definition issueInvitation :: OutOfBandRecord where
  "issueInvitation = \<lparr>goalCode = Some ''aries.vc.issue'', invitationRequestsThreadIds = None\<rparr>"

definition verifyOnceInvitation :: OutOfBandRecord where
  "verifyOnceInvitation = \<lparr>goalCode = Some ''aries.vc.verify.once'',
     invitationRequestsThreadIds = Some [''thread-9'']\<rparr>"

definition unknownGoalInvitation :: OutOfBandRecord where
  "unknownGoalInvitation = \<lparr>goalCode = Some ''unknown.goal'', invitationRequestsThreadIds = None\<rparr>"

definition waitingHooks :: Hooks where
  "waitingHooks = \<lparr>oobRecord = Some verifyOnceInvitation, connection = None, notifications = []\<rparr>"

definition offerHooks :: Hooks where
  "offerHooks = \<lparr>oobRecord = Some issueInvitation, connection = Some \<lparr>conn_id = ''conn-1''\<rparr>,
     notifications = [basicMessage, offerNotification]\<rparr>"

definition verifyHooks :: Hooks where
  "verifyHooks = \<lparr>oobRecord = Some verifyOnceInvitation, connection = Some \<lparr>conn_id = ''conn-1''\<rparr>,
     notifications = [proofNotification]\<rparr>"

definition chatHooks :: Hooks where
  "chatHooks = \<lparr>oobRecord = Some unknownGoalInvitation, connection = Some \<lparr>conn_id = ''conn-1''\<rparr>,
     notifications = []\<rparr>"

definition noInvitationHooks :: Hooks where
  "noInvitationHooks = \<lparr>oobRecord = None, connection = Some \<lparr>conn_id = ''conn-1''\<rparr>,
     notifications = [offerNotification]\<rparr>"

definition w3cOfferHooks :: Hooks where
  "w3cOfferHooks = \<lparr>oobRecord = Some issueInvitation, connection = Some \<lparr>conn_id = ''conn-1''\<rparr>,
     notifications = [w3cNotification]\<rparr>"

section \<open>Properties of one render and of a flush\<close>

declare flush.simps [simp del]

lemma merge_sel [simp]:
  "inProgress (merge s d) = (case next_inProgress d of None \<Rightarrow> inProgress s | Some b \<Rightarrow> b)"
  "notificationRecord (merge s d) =
     (case next_notificationRecord d of None \<Rightarrow> notificationRecord s | Some n \<Rightarrow> Some n)"
  "shouldShowDelayMessage (merge s d) =
     (case next_shouldShowDelayMessage d of None \<Rightarrow> shouldShowDelayMessage s | Some b \<Rightarrow> b)"
  by (simp_all add: merge_def)

lemma andThen_noEffect [simp]: "andThen noEffect e = e" "andThen e noEffect = e"
  by (simp_all add: andThen_def noEffect_def)

lemma whenChanged_noEffect [simp]: "whenChanged b noEffect = noEffect"
  by (simp add: whenChanged_def)

lemma routerEffect_resolved: "\<not> inProgress s \<Longrightarrow> routerEffect sv h s = noEffect"
  by (simp add: routerEffect_def split: option.split)

lemma openIDEffect_resolved: "\<not> inProgress s \<Longrightarrow> openIDEffect s = noEffect"
  by (simp add: openIDEffect_def)

lemma matcherEffect_resolved: "\<not> inProgress s \<Longrightarrow> matcherEffect h s = noEffect"
  by (simp add: matcherEffect_def)

lemma runEffects_resolved:
  "\<not> inProgress s \<Longrightarrow> runEffects sv tr h s = whenChanged (delayDepsChanged tr s) (delayEffect sv s)"
  by (simp add: runEffects_def routerEffect_resolved openIDEffect_resolved matcherEffect_resolved)

lemma flush_quiet: "runEffects sv tr h s = ([], cs) \<Longrightarrow> flush sv tr h s = (s, cs)"
  by (subst flush.simps) simp

lemma flush_again:
  "runEffects sv tr h s = (ds, cs) \<Longrightarrow> ds \<noteq> [] \<Longrightarrow>
   flush sv tr h s =
     (fst (flush sv (Dispatched s) h (foldl merge s ds)),
      cs @ snd (flush sv (Dispatched s) h (foldl merge s ds)))"
  by (subst flush.simps) (simp add: case_prod_beta)

lemma flush_resolved:
  assumes "\<not> inProgress s"
  shows "flush sv tr h s =
     (if delayDepsChanged tr s \<and> shouldShowDelayMessage s \<and> notificationRecord s = None then
        (if autoRedirectConnectionToHome sv then
           (s\<lparr>shouldShowDelayMessage := False\<rparr>, viaParent sv NavigateHome)
         else (s, [AnnounceTakingTooLong]))
      else (s, []))"
proof (cases "delayDepsChanged tr s \<and> shouldShowDelayMessage s \<and> notificationRecord s = None")
  case False
  then have "runEffects sv tr h s = ([], [])"
    using assms by (auto simp: runEffects_resolved whenChanged_def delayEffect_def noEffect_def)
  then have "flush sv tr h s = (s, [])"
    by (rule flush_quiet)
  then show ?thesis
    by (simp only: if_not_P [OF False])
next
  case fires: True
  show ?thesis
  proof (cases "autoRedirectConnectionToHome sv")
    case False
    then have "runEffects sv tr h s = ([], [AnnounceTakingTooLong])"
      using assms fires by (simp add: runEffects_resolved whenChanged_def delayEffect_def)
    then show ?thesis
      using False fires by (simp add: flush_quiet)
  next
    case True
    let ?d = "noFields\<lparr>next_shouldShowDelayMessage := Some False, next_inProgress := Some False\<rparr>"
    let ?s' = "s\<lparr>shouldShowDelayMessage := False\<rparr>"
    have one: "runEffects sv tr h s = ([?d], viaParent sv NavigateHome)"
      using assms fires True by (simp add: runEffects_resolved whenChanged_def delayEffect_def)
    have s': "foldl merge s [?d] = ?s'"
      using assms by (simp add: merge_def noFields_def)
    have "runEffects sv (Dispatched s) h ?s' = ([], [])"
      using assms by (simp add: runEffects_resolved whenChanged_def delayEffect_def noEffect_def)
    then have "flush sv (Dispatched s) h ?s' = (?s', [])"
      by (rule flush_quiet)
    then show ?thesis
      using flush_again [OF one] s' True fires by simp
  qed
qed

subsection \<open>Applying the dispatches of one render\<close>

lemma foldl_merge_inProgress:
  "\<forall>d\<in>set ds. next_inProgress d \<noteq> Some True \<Longrightarrow> inProgress (foldl merge s ds) \<Longrightarrow> inProgress s"
proof (induction ds arbitrary: s)
  case Nil
  then show ?case by simp
next
  case (Cons d ds)
  have "inProgress (merge s d)"
    using Cons.IH [of "merge s d"] Cons.prems by simp
  with Cons.prems show ?case
    by (cases "next_inProgress d") auto
qed

lemma foldl_merge_closed:
  "\<forall>d\<in>set ds. next_inProgress d \<noteq> Some True \<Longrightarrow> \<exists>d\<in>set ds. next_inProgress d = Some False \<Longrightarrow>
   \<not> inProgress (foldl merge s ds)"
proof (induction ds arbitrary: s)
  case Nil
  then show ?case by simp
next
  case (Cons d ds)
  show ?case
  proof (cases "next_inProgress d = Some False")
    case True
    then have "\<not> inProgress (merge s d)"
      by simp
    then show ?thesis
      using Cons.prems(1) foldl_merge_inProgress [of ds "merge s d"] by auto
  next
    case False
    then show ?thesis
      using Cons by auto
  qed
qed

lemma foldl_merge_delay:
  "\<forall>d\<in>set ds. next_shouldShowDelayMessage d \<noteq> Some True \<Longrightarrow>
   shouldShowDelayMessage (foldl merge s ds) \<Longrightarrow> shouldShowDelayMessage s"
proof (induction ds arbitrary: s)
  case Nil
  then show ?case by simp
next
  case (Cons d ds)
  have "shouldShowDelayMessage (merge s d)"
    using Cons.IH [of "merge s d"] Cons.prems by simp
  with Cons.prems show ?case
    by (cases "next_shouldShowDelayMessage d") auto
qed

lemma foldl_merge_notification_kept:
  "\<forall>d\<in>set ds. next_notificationRecord d = None \<Longrightarrow>
   notificationRecord (foldl merge s ds) = notificationRecord s"
  by (induction ds arbitrary: s) simp_all

text \<open>What the effects of one render can dispatch.\<close>

lemma delayEffect_fst:
  "fst (delayEffect sv s) =
     (if shouldShowDelayMessage s \<and> notificationRecord s = None \<and> autoRedirectConnectionToHome sv
      then [noFields\<lparr>next_shouldShowDelayMessage := Some False, next_inProgress := Some False\<rparr>]
      else [])"
  by (simp add: delayEffect_def noEffect_def)

lemma delayEffect_snd:
  "snd (delayEffect sv s) =
     (if shouldShowDelayMessage s \<and> notificationRecord s = None
      then (if autoRedirectConnectionToHome sv then viaParent sv NavigateHome
            else [AnnounceTakingTooLong])
      else [])"
  by (simp add: delayEffect_def noEffect_def)

lemma routerEffect_fst:
  "fst (routerEffect sv h s) = []
   \<or> inProgress s \<and> fst (routerEffect sv h s) = [noFields\<lparr>next_inProgress := Some False\<rparr>]"
  by (auto simp: routerEffect_def noEffect_def split: option.split bool.split)

lemma openIDEffect_fst:
  "fst (openIDEffect s) = []
   \<or> inProgress s \<and> fst (openIDEffect s) = [noFields\<lparr>next_inProgress := Some False\<rparr>]"
  by (auto simp: openIDEffect_def noEffect_def split: option.split)

lemma matcherEffect_fst:
  "fst (matcherEffect h s) = []
   \<or> inProgress s \<and> notificationRecord s = None
     \<and> (\<exists>n. matcherLoop (connection h) (oobRecord h) (notifications h) = Some n
          \<and> fst (matcherEffect h s) = [noFields\<lparr>next_notificationRecord := Some n\<rparr>])"
  by (auto simp: matcherEffect_def noEffect_def split: option.split)

lemma matcherEffect_snd [simp]: "snd (matcherEffect h s) = []"
  by (simp add: matcherEffect_def noEffect_def split: option.split)

lemma runEffects_fst_subset:
  "set (fst (runEffects sv tr h s))
   \<subseteq> set (fst (delayEffect sv s)) \<union> set (fst (routerEffect sv h s))
     \<union> set (fst (openIDEffect s)) \<union> set (fst (matcherEffect h s))"
  by (auto simp: runEffects_def andThen_def whenChanged_def noEffect_def)

lemma runEffects_snd_subset:
  "set (snd (runEffects sv tr h s))
   \<subseteq> set (snd (whenChanged (delayDepsChanged tr s) (delayEffect sv s)))
     \<union> set (snd (routerEffect sv h s)) \<union> set (snd (openIDEffect s))"
  by (auto simp: runEffects_def andThen_def whenChanged_def noEffect_def)

lemma runEffects_dispatch_cases:
  assumes "d \<in> set (fst (runEffects sv tr h s))"
  shows "d = noFields\<lparr>next_shouldShowDelayMessage := Some False, next_inProgress := Some False\<rparr>
       \<and> shouldShowDelayMessage s \<and> notificationRecord s = None
     \<or> d = noFields\<lparr>next_inProgress := Some False\<rparr> \<and> inProgress s
     \<or> (\<exists>n. d = noFields\<lparr>next_notificationRecord := Some n\<rparr> \<and> inProgress s
           \<and> notificationRecord s = None
           \<and> matcherLoop (connection h) (oobRecord h) (notifications h) = Some n)"
proof -
  consider "d \<in> set (fst (delayEffect sv s))" | "d \<in> set (fst (routerEffect sv h s))"
    | "d \<in> set (fst (openIDEffect s))" | "d \<in> set (fst (matcherEffect h s))"
    using assms runEffects_fst_subset by blast
  then show ?thesis
  proof cases
    case 1
    then show ?thesis
      by (simp add: delayEffect_fst split: if_splits)
  next
    case 2
    then show ?thesis
      using routerEffect_fst [of sv h s] by auto
  next
    case 3
    then show ?thesis
      using openIDEffect_fst [of s] by auto
  next
    case 4
    then show ?thesis
      using matcherEffect_fst [of h s] by auto
  qed
qed

lemma runEffects_lowers:
  "d \<in> set (fst (runEffects sv tr h s)) \<Longrightarrow>
   next_inProgress d \<noteq> Some True \<and> next_shouldShowDelayMessage d \<noteq> Some True"
  by (drule runEffects_dispatch_cases) (auto simp: noFields_def)

lemma runEffects_keeps_match:
  "d \<in> set (fst (runEffects sv tr h s)) \<Longrightarrow> \<not> inProgress s \<or> notificationRecord s \<noteq> None \<Longrightarrow>
   next_notificationRecord d = None"
  by (drule runEffects_dispatch_cases) (auto simp: noFields_def)

lemma settles_refl: "settles s s"
  by (simp add: settles_def)

lemma settles_trans: "settles s s' \<Longrightarrow> settles s' s'' \<Longrightarrow> settles s s''"
  by (auto simp: settles_def)

lemma round_settles: "settles s (foldl merge s (fst (runEffects sv tr h s)))"
  unfolding settles_def
proof (intro conjI impI)
  let ?ds = "fst (runEffects sv tr h s)"
  show "inProgress s" if "inProgress (foldl merge s ?ds)"
    using that runEffects_lowers by (intro foldl_merge_inProgress [of ?ds s]) blast+
  show "shouldShowDelayMessage s" if "shouldShowDelayMessage (foldl merge s ?ds)"
    using that runEffects_lowers by (intro foldl_merge_delay [of ?ds s]) blast+
  show "notificationRecord (foldl merge s ?ds) = notificationRecord s"
    if "notificationRecord s \<noteq> None \<or> \<not> inProgress s"
    using that runEffects_keeps_match by (intro foldl_merge_notification_kept) blast
qed

lemma flush_settles: "settles s (fst (flush sv tr h s))"
proof (induction sv tr h s rule: flush.induct)
  case (1 sv tr h s)
  obtain ds cs where r: "runEffects sv tr h s = (ds, cs)"
    by (cases "runEffects sv tr h s")
  show ?case
  proof (cases "ds = []")
    case True
    then show ?thesis
      using r by (simp add: flush_quiet settles_refl)
  next
    case False
    have "settles s (foldl merge s ds)"
      using round_settles [of s sv tr h] r by simp
    moreover have "settles (foldl merge s ds) (fst (flush sv (Dispatched s) h (foldl merge s ds)))"
      using "1.IH" [OF r [symmetric] False] .
    ultimately show ?thesis
      using flush_again [OF r False] settles_trans by simp
  qed
qed

subsection \<open>The matched notification over events\<close>

lemma render_sel [simp]:
  "state (render sv tr inst) = fst (flush sv tr (hooks inst) (state inst))"
  "calls (render sv tr inst) = calls inst @ snd (flush sv tr (hooks inst) (state inst))"
  "hooks (render sv tr inst) = hooks inst"
  "timerRef (render sv tr inst) = timerRef inst"
  "timeouts (render sv tr inst) = timeouts inst"
  "nextHandle (render sv tr inst) = nextHandle inst"
  "mounted (render sv tr inst) = mounted inst"
  by (simp_all add: render_def case_prod_beta)

lemma abortTimer_sel [simp]:
  "state (abortTimer inst) = state inst"
  "calls (abortTimer inst) = calls inst"
  "hooks (abortTimer inst) = hooks inst"
  "mounted (abortTimer inst) = mounted inst"
  by (simp_all add: abortTimer_def split: option.split)

lemma step_keeps_match:
  assumes "notificationRecord (state inst) = Some n"
  shows "notificationRecord (state (step sv e inst)) = Some n"
proof (cases e)
  case (Update h)
  then show ?thesis
    using assms flush_settles [of "state inst" sv "HooksChanged (hooks inst)" h]
    by (simp add: settles_def)
next
  case (TimerFired t)
  let ?s = "merge (state inst) (noFields\<lparr>next_shouldShowDelayMessage := Some True\<rparr>)"
  have "notificationRecord ?s = Some n"
    using assms by (simp add: noFields_def)
  then show ?thesis
    using TimerFired assms flush_settles [of ?s sv "Dispatched (state inst)" "hooks inst"]
    by (simp add: settles_def)
next
  case DismissModalTouched
  let ?s = "merge (state inst)
    (noFields\<lparr>next_shouldShowDelayMessage := Some False, next_inProgress := Some False\<rparr>)"
  have "notificationRecord ?s = Some n"
    using assms by (simp add: noFields_def)
  then show ?thesis
    using DismissModalTouched assms flush_settles [of ?s sv "Dispatched (state inst)" "hooks inst"]
    by (simp add: settles_def)
next
  case Unmount
  then show ?thesis
    using assms by simp
qed

lemma run_keeps_match:
  "notificationRecord (state inst) = Some n \<Longrightarrow> notificationRecord (state (run sv evs inst)) = Some n"
  by (induction evs arbitrary: inst) (simp_all add: step_keeps_match)

subsection \<open>Which effect makes which call\<close>

lemma routerEffect_cases:
  "routerEffect sv h s = noEffect
   \<or> inProgress s
     \<and> (\<exists>cs. routerEffect sv h s = ([noFields\<lparr>next_inProgress := Some False\<rparr>], cs)
          \<and> length cs \<le> 1 \<and> (\<forall>c\<in>set cs. routerCall c))"
  by (auto simp: routerEffect_def viaParent_def split: option.split bool.split)

lemma openIDEffect_cases:
  "openIDEffect s = noEffect
   \<or> inProgress s
     \<and> (\<exists>n. notificationRecord s = Some n
          \<and> openIDEffect s = ([noFields\<lparr>next_inProgress := Some False\<rparr>],
               [ReplaceOpenIDCredentialDetails n]))"
  by (auto simp: openIDEffect_def split: option.split)

lemma delayEffect_calls: "c \<in> set (snd (delayEffect sv s)) \<Longrightarrow> delayCall c"
  by (auto simp: delayEffect_snd viaParent_def split: if_splits)

lemma routerEffect_calls: "c \<in> set (snd (routerEffect sv h s)) \<Longrightarrow> routerCall c"
  using routerEffect_cases [of sv h s] by (auto simp: noEffect_def)

lemma openIDEffect_calls: "c \<in> set (snd (openIDEffect s)) \<Longrightarrow> openIDCall c"
  using openIDEffect_cases [of s] by (auto simp: noEffect_def)

lemma call_kinds:
  "routerCall c \<Longrightarrow> \<not> openIDCall c \<and> \<not> delayCall c"
  "openIDCall c \<Longrightarrow> \<not> routerCall c \<and> \<not> delayCall c"
  "delayCall c \<Longrightarrow> \<not> routerCall c \<and> \<not> openIDCall c"
  by (cases c; simp)+

text \<open>The calls of the delay effect are made in the first render of a flush only.\<close>

lemma round_delay_calls:
  assumes "c \<in> set (snd (runEffects sv tr h s))" and "delayCall c"
  shows "delayDepsChanged tr s \<and> shouldShowDelayMessage s \<and> notificationRecord s = None
    \<and> (c = AnnounceTakingTooLong \<longleftrightarrow> \<not> autoRedirectConnectionToHome sv)"
proof -
  have "c \<in> set (snd (whenChanged (delayDepsChanged tr s) (delayEffect sv s)))"
    using assms runEffects_snd_subset [of sv tr h s] routerEffect_calls openIDEffect_calls call_kinds(3)
    by blast
  then show ?thesis
    by (auto simp: whenChanged_def noEffect_def delayEffect_snd viaParent_def split: if_splits)
qed

lemma flush_delay_calls:
  "c \<in> set (snd (flush sv tr h s)) \<Longrightarrow> delayCall c \<Longrightarrow>
   delayDepsChanged tr s \<and> shouldShowDelayMessage s \<and> notificationRecord s = None
   \<and> (c = AnnounceTakingTooLong \<longleftrightarrow> \<not> autoRedirectConnectionToHome sv)"
proof (induction sv tr h s rule: flush.induct)
  case (1 sv tr h s)
  obtain ds cs where r: "runEffects sv tr h s = (ds, cs)"
    by (cases "runEffects sv tr h s")
  show ?case
  proof (cases "ds = []")
    case True
    then have "c \<in> set (snd (runEffects sv tr h s))"
      using r "1.prems"(1) by (simp add: flush_quiet)
    then show ?thesis
      using "1.prems"(2) by (rule round_delay_calls)
  next
    case False
    let ?s' = "foldl merge s ds"
    have later: "c \<notin> set (snd (flush sv (Dispatched s) h ?s'))"
    proof
      assume c: "c \<in> set (snd (flush sv (Dispatched s) h ?s'))"
      have d: "delayDepsChanged (Dispatched s) ?s' \<and> shouldShowDelayMessage ?s'
          \<and> notificationRecord ?s' = None"
        using "1.IH" [OF r [symmetric] False c "1.prems"(2)] by blast
      have "settles s ?s'"
        using round_settles [of s sv tr h] r by simp
      then have "shouldShowDelayMessage s" and "notificationRecord s = None"
        using d by (auto simp: settles_def)
      then show False
        using d by auto
    qed
    have "c \<in> set cs \<or> c \<in> set (snd (flush sv (Dispatched s) h ?s'))"
      using "1.prems"(1) flush_again [OF r False] by auto
    then have "c \<in> set (snd (runEffects sv tr h s))"
      using later r by simp
    then show ?thesis
      using "1.prems"(2) by (rule round_delay_calls)
  qed
qed

subsection \<open>At most one decision in a flush\<close>

lemma runEffects_fst:
  "fst (runEffects sv tr h s) =
     fst (whenChanged (delayDepsChanged tr s) (delayEffect sv s))
     @ fst (whenChanged (routerDepsChanged tr h s) (routerEffect sv h s))
     @ fst (whenChanged (openIDDepsChanged tr) (openIDEffect s))
     @ fst (whenChanged (matcherDepsChanged tr h s) (matcherEffect h s))"
  by (simp add: runEffects_def andThen_def)

lemma runEffects_snd:
  "snd (runEffects sv tr h s) =
     snd (whenChanged (delayDepsChanged tr s) (delayEffect sv s))
     @ snd (whenChanged (routerDepsChanged tr h s) (routerEffect sv h s))
     @ snd (whenChanged (openIDDepsChanged tr) (openIDEffect s))"
  by (simp add: runEffects_def andThen_def whenChanged_def noEffect_def)

lemma filter_none: "(\<And>c. c \<in> set cs \<Longrightarrow> \<not> P c) \<Longrightarrow> filter P cs = []"
  by (simp add: filter_empty_conv)

lemma filter_all: "(\<And>c. c \<in> set cs \<Longrightarrow> P c) \<Longrightarrow> filter P cs = cs"
  by (simp add: filter_id_conv)

lemma whenChanged_delay_calls:
  "c \<in> set (snd (whenChanged b (delayEffect sv s))) \<Longrightarrow> delayCall c"
  by (auto simp: whenChanged_def noEffect_def delayEffect_calls split: if_splits)

lemma whenChanged_router:
  "whenChanged b (routerEffect sv h s) = noEffect
   \<or> inProgress s
     \<and> (\<exists>cs. whenChanged b (routerEffect sv h s) = ([noFields\<lparr>next_inProgress := Some False\<rparr>], cs)
          \<and> length cs \<le> 1 \<and> (\<forall>c\<in>set cs. routerCall c))"
  using routerEffect_cases [of sv h s] by (auto simp: whenChanged_def)

lemma whenChanged_openID:
  "whenChanged b (openIDEffect s) = noEffect
   \<or> inProgress s
     \<and> (\<exists>n. whenChanged b (openIDEffect s) = ([noFields\<lparr>next_inProgress := Some False\<rparr>],
          [ReplaceOpenIDCredentialDetails n]))"
  using openIDEffect_cases [of s] by (auto simp: whenChanged_def)

lemma round_router_calls:
  "filter routerCall (snd (runEffects sv tr h s))
     = snd (whenChanged (routerDepsChanged tr h s) (routerEffect sv h s))"
proof -
  have "filter routerCall (snd (whenChanged (delayDepsChanged tr s) (delayEffect sv s))) = []"
    by (rule filter_none) (use whenChanged_delay_calls call_kinds(3) in blast)
  moreover have "filter routerCall (snd (whenChanged (openIDDepsChanged tr) (openIDEffect s))) = []"
    using whenChanged_openID [of "openIDDepsChanged tr" s] by (auto simp: noEffect_def)
  moreover have "filter routerCall (snd (whenChanged (routerDepsChanged tr h s) (routerEffect sv h s)))
      = snd (whenChanged (routerDepsChanged tr h s) (routerEffect sv h s))"
    using whenChanged_router [of "routerDepsChanged tr h s" sv h s]
    by (auto simp: noEffect_def intro: filter_all)
  ultimately show ?thesis
    by (simp add: runEffects_snd)
qed

lemma round_openID_calls:
  "filter openIDCall (snd (runEffects sv tr h s))
     = snd (whenChanged (openIDDepsChanged tr) (openIDEffect s))"
proof -
  have "filter openIDCall (snd (whenChanged (delayDepsChanged tr s) (delayEffect sv s))) = []"
    by (rule filter_none) (use whenChanged_delay_calls call_kinds(3) in blast)
  moreover have "filter openIDCall (snd (whenChanged (routerDepsChanged tr h s) (routerEffect sv h s))) = []"
    using whenChanged_router [of "routerDepsChanged tr h s" sv h s] call_kinds(1)
    by (auto simp: noEffect_def intro: filter_none)
  moreover have "filter openIDCall (snd (whenChanged (openIDDepsChanged tr) (openIDEffect s)))
      = snd (whenChanged (openIDDepsChanged tr) (openIDEffect s))"
    using whenChanged_openID [of "openIDDepsChanged tr" s] by (auto simp: noEffect_def)
  ultimately show ?thesis
    by (simp add: runEffects_snd)
qed

lemma round_decides:
  assumes r: "runEffects sv tr h s = (ds, cs)"
  shows "length (filter routerCall cs) \<le> 1 \<and> length (filter openIDCall cs) \<le> 1
    \<and> (inProgress (foldl merge s ds) \<longrightarrow> filter routerCall cs = [] \<and> filter openIDCall cs = [])"
proof -
  let ?R = "whenChanged (routerDepsChanged tr h s) (routerEffect sv h s)"
  let ?O = "whenChanged (openIDDepsChanged tr) (openIDEffect s)"
  have cs: "filter routerCall cs = snd ?R" "filter openIDCall cs = snd ?O"
    using round_router_calls [of sv tr h s] round_openID_calls [of sv tr h s] r by simp_all
  have ds: "set (fst ?R) \<subseteq> set ds" "set (fst ?O) \<subseteq> set ds"
    using runEffects_fst [of sv tr h s] r by auto
  have lowers: "\<forall>d\<in>set ds. next_inProgress d \<noteq> Some True"
    using runEffects_lowers [of _ sv tr h s] r by simp
  have closes: "\<not> inProgress (foldl merge s ds)"
    if "noFields\<lparr>next_inProgress := Some False\<rparr> \<in> set ds"
  proof -
    have "next_inProgress (noFields\<lparr>next_inProgress := Some False\<rparr>) = Some False"
      by simp
    with that have "\<exists>d\<in>set ds. next_inProgress d = Some False"
      by blast
    with lowers show ?thesis
      by (rule foldl_merge_closed)
  qed
  have "length (snd ?R) \<le> 1" "snd ?R \<noteq> [] \<longrightarrow> \<not> inProgress (foldl merge s ds)"
    using whenChanged_router [of "routerDepsChanged tr h s" sv h s] ds(1) closes
    by (auto simp: noEffect_def)
  moreover have "length (snd ?O) \<le> 1" "snd ?O \<noteq> [] \<longrightarrow> \<not> inProgress (foldl merge s ds)"
    using whenChanged_openID [of "openIDDepsChanged tr" s] ds(2) closes
    by (auto simp: noEffect_def)
  ultimately show ?thesis
    using cs by auto
qed

lemma flush_resolved_calls:
  "\<not> inProgress s \<Longrightarrow> c \<in> set (snd (flush sv tr h s)) \<Longrightarrow> delayCall c"
  by (auto simp: flush_resolved viaParent_def split: if_splits)

lemma flush_decides:
  "length (filter routerCall (snd (flush sv tr h s))) \<le> 1
   \<and> length (filter openIDCall (snd (flush sv tr h s))) \<le> 1
   \<and> (inProgress (fst (flush sv tr h s))
        \<longrightarrow> filter routerCall (snd (flush sv tr h s)) = []
          \<and> filter openIDCall (snd (flush sv tr h s)) = [])"
proof (induction sv tr h s rule: flush.induct)
  case (1 sv tr h s)
  obtain ds cs where r: "runEffects sv tr h s = (ds, cs)"
    by (cases "runEffects sv tr h s")
  note round = round_decides [OF r]
  show ?case
  proof (cases "ds = []")
    case True
    then show ?thesis
      using r round by (simp add: flush_quiet)
  next
    case False
    let ?s' = "foldl merge s ds"
    let ?F = "flush sv (Dispatched s) h ?s'"
    have unfold: "fst (flush sv tr h s) = fst ?F" "snd (flush sv tr h s) = cs @ snd ?F"
      using flush_again [OF r False] by simp_all
    show ?thesis
    proof (cases "inProgress ?s'")
      case True
      then have "filter routerCall cs = []" "filter openIDCall cs = []"
        using round by simp_all
      then show ?thesis
        using "1.IH" [OF r [symmetric] False] unfold by simp
    next
      case False
      then have "\<not> inProgress (fst ?F)"
        using flush_settles [of ?s' sv "Dispatched s" h] by (simp add: settles_def)
      moreover have "filter routerCall (snd ?F) = []" "filter openIDCall (snd ?F) = []"
        using False flush_resolved_calls call_kinds(3) by (blast intro: filter_none)+
      ultimately show ?thesis
        using round unfold by simp
    qed
  qed
qed

text \<open>The shape of one event.\<close>

lemma step_shape:
  "state (step sv e i) = state i \<and> calls (step sv e i) = calls i
   \<or> (\<exists>tr h s1 pre.
        state (step sv e i) = fst (flush sv tr h s1)
        \<and> calls (step sv e i) = (calls i @ pre) @ snd (flush sv tr h s1)
        \<and> (\<forall>c\<in>set pre. c = NavigateHome)
        \<and> (inProgress s1 \<longrightarrow> inProgress (state i))
        \<and> notificationRecord s1 = notificationRecord (state i))"
proof (cases e)
  case (Update h)
  show ?thesis
  proof (cases "mounted i")
    case True
    then have "state (step sv e i) = fst (flush sv (HooksChanged (hooks i)) h (state i))
        \<and> calls (step sv e i) = (calls i @ []) @ snd (flush sv (HooksChanged (hooks i)) h (state i))"
      using Update by simp
    then show ?thesis
      by (intro disjI2 exI [of _ "HooksChanged (hooks i)"] exI [of _ h] exI [of _ "state i"]
          exI [of _ "[]"]) simp
  next
    case False
    then show ?thesis
      using Update by simp
  qed
next
  case (TimerFired t)
  let ?s1 = "merge (state i) (noFields\<lparr>next_shouldShowDelayMessage := Some True\<rparr>)"
  show ?thesis
  proof (cases "mounted i \<and> t \<in> set (map fst (timeouts i))")
    case True
    then have "state (step sv e i) = fst (flush sv (Dispatched (state i)) (hooks i) ?s1)
        \<and> calls (step sv e i) = (calls i @ []) @ snd (flush sv (Dispatched (state i)) (hooks i) ?s1)"
      using TimerFired by simp
    moreover have "(inProgress ?s1 \<longrightarrow> inProgress (state i))
        \<and> notificationRecord ?s1 = notificationRecord (state i)"
      by (simp add: noFields_def)
    ultimately show ?thesis
      by (intro disjI2 exI [of _ "Dispatched (state i)"] exI [of _ "hooks i"] exI [of _ ?s1]
          exI [of _ "[]"]) (simp add: noFields_def)
  next
    case False
    then show ?thesis
      using TimerFired by auto
  qed
next
  case DismissModalTouched
  let ?s1 = "merge (state i)
    (noFields\<lparr>next_shouldShowDelayMessage := Some False, next_inProgress := Some False\<rparr>)"
  show ?thesis
  proof (cases "mounted i")
    case True
    then have "state (step sv e i) = fst (flush sv (Dispatched (state i)) (hooks i) ?s1)
        \<and> calls (step sv e i)
          = (calls i @ viaParent sv NavigateHome) @ snd (flush sv (Dispatched (state i)) (hooks i) ?s1)"
      using DismissModalTouched by simp
    moreover have "(inProgress ?s1 \<longrightarrow> inProgress (state i))
        \<and> notificationRecord ?s1 = notificationRecord (state i)"
      by (simp add: noFields_def)
    moreover have "\<forall>c\<in>set (viaParent sv NavigateHome). c = NavigateHome"
      by (simp add: viaParent_def)
    ultimately show ?thesis
      by (intro disjI2 exI [of _ "Dispatched (state i)"] exI [of _ "hooks i"] exI [of _ ?s1]
          exI [of _ "viaParent sv NavigateHome"]) (simp add: noFields_def)
  next
    case False
    then show ?thesis
      using DismissModalTouched by simp
  qed
next
  case Unmount
  then show ?thesis
    by simp
qed

subsection \<open>Unfolding the definitions on examples\<close>

lemmas model_defs = mount_def render_def startTimer_def abortTimer_def clearTimeout_def
  initialState_def runEffects_def andThen_def whenChanged_def noEffect_def delayEffect_def
  routerEffect_def openIDEffect_def matcherEffect_def viaParent_def merge_def noFields_def
  GoalCodes_def nullish_def threadIdsInclude_def proofRequestVerify_def
  proofRequestVerifyOnce_def credentialOffer_def connTimerDelay_def flush.simps

lemmas example_defs = redirectServices_def noticeServices_def chatHooks_def
  unknownGoalInvitation_def waitingHooks_def verifyOnceInvitation_def offerHooks_def
  issueInvitation_def basicMessage_def offerNotification_def w3cNotification_def
  proofNotification_def verifyHooks_def noInvitationHooks_def
  w3cOfferHooks_def

subsection \<open>Decisions over a run\<close>

lemma decidesOnce_mount: "decidesOnce (mount sv h)"
  using flush_decides [of sv Mounting h initialState]
  by (simp add: decidesOnce_def mount_def startTimer_def)

lemma filter_NavigateHome:
  "\<forall>c\<in>set pre. c = NavigateHome \<Longrightarrow> filter routerCall pre = [] \<and> filter openIDCall pre = []"
  by (induction pre) simp_all

lemma decidesOnce_step:
  assumes "decidesOnce i"
  shows "decidesOnce (step sv e i)"
proof -
  consider (same) "state (step sv e i) = state i" "calls (step sv e i) = calls i"
    | (flush) tr h s1 pre where
      "state (step sv e i) = fst (flush sv tr h s1)"
      "calls (step sv e i) = (calls i @ pre) @ snd (flush sv tr h s1)"
      "\<forall>c\<in>set pre. c = NavigateHome"
      "inProgress s1 \<longrightarrow> inProgress (state i)"
    using step_shape [of sv e i] by blast
  then show ?thesis
  proof cases
    case same
    then show ?thesis
      using assms by (simp add: decidesOnce_def)
  next
    case flush
    note pre = filter_NavigateHome [OF flush(3)]
    note F = flush_decides [of sv tr h s1]
    show ?thesis
    proof (cases "inProgress (state i)")
      case True
      then have "filter routerCall (calls i) = []" "filter openIDCall (calls i) = []"
        using assms by (simp_all add: decidesOnce_def)
      then show ?thesis
        using F pre flush(1,2) by (simp add: decidesOnce_def)
    next
      case False
      then have s1: "\<not> inProgress s1"
        using flush(4) by simp
      then have "\<not> inProgress (fst (flush sv tr h s1))"
        using flush_settles [of s1 sv tr h] by (simp add: settles_def)
      moreover have "filter routerCall (snd (flush sv tr h s1)) = []"
        "filter openIDCall (snd (flush sv tr h s1)) = []"
        using s1 flush_resolved_calls call_kinds(3) by (blast intro: filter_none)+
      ultimately show ?thesis
        using assms pre flush(1,2) by (simp add: decidesOnce_def)
    qed
  qed
qed

lemma decidesOnce_run: "decidesOnce i \<Longrightarrow> decidesOnce (run sv evs i)"
  by (induction evs arbitrary: i) (simp_all add: decidesOnce_step)

lemma step_resolved:
  assumes "\<not> inProgress (state i)"
  shows "\<not> inProgress (state (step sv e i))
    \<and> notificationRecord (state (step sv e i)) = notificationRecord (state i)
    \<and> (\<exists>cs. calls (step sv e i) = calls i @ cs \<and> list_all delayCall cs)"
proof -
  consider (same) "state (step sv e i) = state i" "calls (step sv e i) = calls i"
    | (flush) tr h s1 pre where
      "state (step sv e i) = fst (flush sv tr h s1)"
      "calls (step sv e i) = (calls i @ pre) @ snd (flush sv tr h s1)"
      "\<forall>c\<in>set pre. c = NavigateHome"
      "inProgress s1 \<longrightarrow> inProgress (state i)"
      "notificationRecord s1 = notificationRecord (state i)"
    using step_shape [of sv e i] by blast
  then show ?thesis
  proof cases
    case same
    then show ?thesis
      using assms by simp
  next
    case flush
    have s1: "\<not> inProgress s1"
      using assms flush(4) by simp
    then have "\<not> inProgress (fst (flush sv tr h s1))"
      and "notificationRecord (fst (flush sv tr h s1)) = notificationRecord s1"
      using flush_settles [of s1 sv tr h] by (simp_all add: settles_def)
    moreover have "list_all delayCall (pre @ snd (flush sv tr h s1))"
      using s1 flush(3) flush_resolved_calls by (auto simp: list_all_iff)
    ultimately show ?thesis
      using flush(1,2,5) by simp
  qed
qed

lemma run_resolved:
  "\<not> inProgress (state i) \<Longrightarrow>
   \<not> inProgress (state (run sv evs i))
   \<and> notificationRecord (state (run sv evs i)) = notificationRecord (state i)
   \<and> (\<exists>cs. calls (run sv evs i) = calls i @ cs \<and> list_all delayCall cs)"
proof (induction evs arbitrary: i)
  case Nil
  then show ?case by simp
next
  case (Cons e evs)
  obtain cs where one: "\<not> inProgress (state (step sv e i))"
    "notificationRecord (state (step sv e i)) = notificationRecord (state i)"
    "calls (step sv e i) = calls i @ cs" "list_all delayCall cs"
    using step_resolved [OF Cons.prems] by blast
  obtain cs' where rest: "\<not> inProgress (state (run sv evs (step sv e i)))"
    "notificationRecord (state (run sv evs (step sv e i))) = notificationRecord (state (step sv e i))"
    "calls (run sv evs (step sv e i)) = calls (step sv e i) @ cs'" "list_all delayCall cs'"
    using Cons.IH [OF one(1)] by blast
  have "calls (run sv (e # evs) i) = calls i @ (cs @ cs') \<and> list_all delayCall (cs @ cs')"
    using one rest by simp
  then show ?case
    using one rest by (metis run.simps(2))
qed

subsection \<open>The dismiss button and the watchdog\<close>

lemma dismiss_merge:
  "merge s (noFields\<lparr>next_shouldShowDelayMessage := Some False, next_inProgress := Some False\<rparr>)
     = s\<lparr>inProgress := False, shouldShowDelayMessage := False\<rparr>"
  by (simp add: merge_def noFields_def)

lemma flush_no_announcement:
  "\<not> (delayDepsChanged tr s \<and> shouldShowDelayMessage s) \<Longrightarrow>
   AnnounceTakingTooLong \<notin> set (snd (flush sv tr h s))"
  using flush_delay_calls [of AnnounceTakingTooLong sv tr h s] by auto

lemma flush_keeps_delay_off:
  "\<not> shouldShowDelayMessage s \<Longrightarrow> \<not> shouldShowDelayMessage (fst (flush sv tr h s))"
  using flush_settles [of s sv tr h] by (simp add: settles_def)

lemma watchdogSound_mount: "watchdogSound (mount sv h)"
  using flush_no_announcement [of Mounting initialState sv h]
    flush_keeps_delay_off [of initialState sv Mounting h]
  by (simp add: watchdogSound_def mount_def startTimer_def initialState_def)

lemma step_no_timeouts: "timeouts i = [] \<Longrightarrow> timeouts (step sv e i) = []"
  by (cases e) (simp_all add: abortTimer_def clearTimeout_def split: option.split)

lemma run_no_timeouts: "timeouts i = [] \<Longrightarrow> timeouts (run sv evs i) = []"
  by (induction evs arbitrary: i) (simp_all add: step_no_timeouts)

lemma watchdogSound_step:
  assumes "watchdogSound i"
  shows "watchdogSound (step sv e i)"
proof (cases "timeouts i")
  case Nil
  then show ?thesis
    using step_no_timeouts [of i sv e] by (simp add: watchdogSound_def)
next
  case (Cons p ps)
  then have i: "timeouts i = [p]" "mounted i" "timerRef i = Some (fst p)"
    "\<not> shouldShowDelayMessage (state i)" "AnnounceTakingTooLong \<notin> set (calls i)"
    using assms by (simp_all add: watchdogSound_def split: list.splits)
  show ?thesis
  proof (cases e)
    case (Update h)
    then show ?thesis
      using i flush_no_announcement [of "HooksChanged (hooks i)" "state i" sv h]
        flush_keeps_delay_off [of "state i" sv "HooksChanged (hooks i)" h]
      by (simp add: watchdogSound_def)
  next
    case (TimerFired t)
    then show ?thesis
      using i assms by (simp add: watchdogSound_def clearTimeout_def)
  next
    case DismissModalTouched
    let ?s1 = "(state i)\<lparr>inProgress := False, shouldShowDelayMessage := False\<rparr>"
    show ?thesis
      using DismissModalTouched i flush_no_announcement [of "Dispatched (state i)" ?s1 sv "hooks i"]
        flush_keeps_delay_off [of ?s1 sv "Dispatched (state i)" "hooks i"]
      by (simp add: watchdogSound_def dismiss_merge viaParent_def)
  next
    case Unmount
    then show ?thesis
      using i by (simp add: watchdogSound_def abortTimer_def clearTimeout_def)
  qed
qed

lemma watchdogSound_run: "watchdogSound i \<Longrightarrow> watchdogSound (run sv evs i)"
  by (induction evs arbitrary: i) (simp_all add: watchdogSound_step)

lemma watchdogSound_reachable: "watchdogSound (run sv evs (mount sv h))"
  by (simp add: watchdogSound_run watchdogSound_mount)

lemma pending_timer:
  assumes "watchdogSound i" and "t \<in> set (map fst (timeouts i))"
  shows "\<exists>d. timeouts i = [(t, d)]" and "\<not> shouldShowDelayMessage (state i)"
    and "AnnounceTakingTooLong \<notin> set (calls i)"
  using assms by (auto simp: watchdogSound_def split: list.splits)

lemma unmounted_is_inert: "\<not> mounted i \<Longrightarrow> timeouts i = [] \<Longrightarrow> step sv e i = i"
  by (cases e) simp_all

lemma unmounted_stays_inert: "\<not> mounted i \<Longrightarrow> timeouts i = [] \<Longrightarrow> run sv evs i = i"
  by (induction evs) (simp_all add: unmounted_is_inert)

lemma unmount_clears:
  assumes "watchdogSound i"
  shows "timeouts (step sv Unmount i) = []" and "\<not> mounted (step sv Unmount i)"
proof -
  show "timeouts (step sv Unmount i) = []"
    using assms
    by (cases "timeouts i")
      (auto simp: watchdogSound_def abortTimer_def clearTimeout_def
        split: list.splits option.splits)
  show "\<not> mounted (step sv Unmount i)"
    by simp
qed

text \<open>The render that follows the firing of the timer while no notification is matched.\<close>

lemma timer_round:
  assumes "notificationRecord s = None" and "\<not> shouldShowDelayMessage s"
  shows "runEffects sv (Dispatched s) h (s\<lparr>shouldShowDelayMessage := True\<rparr>)
    = (if autoRedirectConnectionToHome sv then
         ([noFields\<lparr>next_shouldShowDelayMessage := Some False, next_inProgress := Some False\<rparr>],
          viaParent sv NavigateHome)
       else ([], [AnnounceTakingTooLong]))"
  using assms
  by (simp add: runEffects_def whenChanged_def delayEffect_def openIDEffect_def andThen_def
      noEffect_def)

lemma timer_merge:
  "merge s (noFields\<lparr>next_shouldShowDelayMessage := Some True\<rparr>) = s\<lparr>shouldShowDelayMessage := True\<rparr>"
  by (simp add: merge_def noFields_def)

lemma timer_flush:
  assumes "notificationRecord s = None" and "\<not> shouldShowDelayMessage s"
  shows "flush sv (Dispatched s) h (s\<lparr>shouldShowDelayMessage := True\<rparr>)
    = (if autoRedirectConnectionToHome sv then
         (s\<lparr>inProgress := False\<rparr>, viaParent sv NavigateHome)
       else (s\<lparr>shouldShowDelayMessage := True\<rparr>, [AnnounceTakingTooLong]))"
proof (cases "autoRedirectConnectionToHome sv")
  case False
  then show ?thesis
    using timer_round [OF assms, of sv h] by (simp add: flush_quiet)
next
  case True
  let ?d = "noFields\<lparr>next_shouldShowDelayMessage := Some False, next_inProgress := Some False\<rparr>"
  let ?s1 = "s\<lparr>shouldShowDelayMessage := True\<rparr>"
  have r: "runEffects sv (Dispatched s) h ?s1 = ([?d], viaParent sv NavigateHome)"
    using True timer_round [OF assms, of sv h] by simp
  have s2: "foldl merge ?s1 [?d] = s\<lparr>inProgress := False\<rparr>"
    using assms by (simp add: dismiss_merge)
  have "flush sv (Dispatched ?s1) h (s\<lparr>inProgress := False\<rparr>) = (s\<lparr>inProgress := False\<rparr>, [])"
    using assms by (simp add: flush_resolved)
  then show ?thesis
    using True flush_again [OF r] s2 by simp
qed

lemma timer_step:
  assumes "watchdogSound i" and "mounted i" and "notificationRecord (state i) = None"
    and "t \<in> set (map fst (timeouts i))"
  shows "step sv (TimerFired t) i
    = (if autoRedirectConnectionToHome sv then
         i\<lparr>timeouts := [], timerRef := None, state := (state i)\<lparr>inProgress := False\<rparr>,
           calls := calls i @ viaParent sv NavigateHome\<rparr>
       else
         i\<lparr>timeouts := [], timerRef := None,
           state := (state i)\<lparr>shouldShowDelayMessage := True\<rparr>,
           calls := calls i @ [AnnounceTakingTooLong]\<rparr>)"
proof -
  obtain d where p: "timeouts i = [(t, d)]" and off: "\<not> shouldShowDelayMessage (state i)"
    using pending_timer [OF assms(1,4)] by blast
  show ?thesis
    using assms(2,3) p off timer_flush [of "state i" sv "hooks i"]
    by (simp add: render_def timer_merge clearTimeout_def)
qed

lemma count_list_absent: "x \<notin> set xs \<Longrightarrow> count_list xs x = 0"
  by (simp add: count_list_0_iff)

lemma step_announces_nothing:
  assumes "timeouts i = []"
  shows "count_list (calls (step sv e i)) AnnounceTakingTooLong
    = count_list (calls i) AnnounceTakingTooLong"
proof (cases e)
  case (Update h)
  then show ?thesis
    using flush_no_announcement [of "HooksChanged (hooks i)" "state i" sv h]
    by (simp add: count_list_absent)
next
  case (TimerFired t)
  then show ?thesis
    using assms by simp
next
  case DismissModalTouched
  let ?s1 = "(state i)\<lparr>inProgress := False, shouldShowDelayMessage := False\<rparr>"
  show ?thesis
    using DismissModalTouched flush_no_announcement [of "Dispatched (state i)" ?s1 sv "hooks i"]
    by (simp add: dismiss_merge viaParent_def count_list_absent)
next
  case Unmount
  then show ?thesis
    by simp
qed

lemma run_announces_nothing:
  "timeouts i = [] \<Longrightarrow>
   count_list (calls (run sv evs i)) AnnounceTakingTooLong
     = count_list (calls i) AnnounceTakingTooLong"
  by (induction evs arbitrary: i) (simp_all add: step_announces_nothing step_no_timeouts)

lemma timer_does_not_fire: "timeouts i = [] \<Longrightarrow> step sv (TimerFired t) i = i"
  by simp

lemma step_after_redirect:
  assumes "\<not> inProgress (state i)" and "\<not> shouldShowDelayMessage (state i)"
    and "timeouts i = []" and "\<not> isDismiss e"
  shows "state (step sv e i) = state i \<and> calls (step sv e i) = calls i"
proof (cases e)
  case (Update h)
  then show ?thesis
    using assms by (simp add: flush_resolved)
next
  case (TimerFired t)
  then show ?thesis
    using assms by simp
next
  case DismissModalTouched
  then show ?thesis
    using assms by simp
next
  case Unmount
  then show ?thesis
    by simp
qed

lemma run_after_redirect:
  "\<not> inProgress (state i) \<Longrightarrow> \<not> shouldShowDelayMessage (state i) \<Longrightarrow> timeouts i = [] \<Longrightarrow>
   list_all (\<lambda>e. \<not> isDismiss e) evs \<Longrightarrow>
   state (run sv evs i) = state i \<and> calls (run sv evs i) = calls i"
proof (induction evs arbitrary: i)
  case Nil
  then show ?case by simp
next
  case (Cons e evs)
  have one: "state (step sv e i) = state i \<and> calls (step sv e i) = calls i"
    using Cons.prems by (intro step_after_redirect) simp_all
  then have "state (run sv evs (step sv e i)) = state (step sv e i)
      \<and> calls (run sv evs (step sv e i)) = calls (step sv e i)"
    using Cons.prems by (intro Cons.IH) (simp_all add: step_no_timeouts)
  then show ?case
    using one by simp
qed

subsection \<open>Renders that resolve\<close>

text \<open>A render that clears \<open>inProgress\<close> is the last one that makes a call.\<close>

lemma delay_not_again:
  assumes "runEffects sv tr h s = (ds, cs)"
  shows "\<not> (delayDepsChanged (Dispatched s) (foldl merge s ds)
    \<and> shouldShowDelayMessage (foldl merge s ds) \<and> notificationRecord (foldl merge s ds) = None)"
proof -
  have "settles s (foldl merge s ds)"
    using round_settles [of s sv tr h] assms by simp
  then show ?thesis
    by (auto simp: settles_def)
qed

lemma flush_resolving_round:
  assumes "runEffects sv tr h s = (ds, cs)" and "ds \<noteq> []" and "\<not> inProgress (foldl merge s ds)"
  shows "flush sv tr h s = (foldl merge s ds, cs)"
proof -
  have "flush sv (Dispatched s) h (foldl merge s ds) = (foldl merge s ds, [])"
    by (simp only: flush_resolved [OF assms(3)] if_not_P [OF delay_not_again [OF assms(1)]])
  then show ?thesis
    using flush_again [OF assms(1,2)] by simp
qed

lemma whenChanged_True: "b \<Longrightarrow> whenChanged b e = e"
  by (simp add: whenChanged_def)

lemma whenChanged_matcher_snd [simp]: "snd (whenChanged b (matcherEffect h s)) = []"
  by (simp add: whenChanged_def noEffect_def)

lemma matcherEffect_shape:
  "\<exists>ds. matcherEffect h s = (ds, []) \<and> (\<forall>d\<in>set ds. next_inProgress d = None)"
  by (simp add: matcherEffect_def noEffect_def noFields_def split: option.split)

lemma foldl_merge_close_first:
  "\<forall>d\<in>set ds. next_inProgress d = None \<Longrightarrow>
   inProgress (foldl merge s (noFields\<lparr>next_inProgress := Some False\<rparr> # ds)) = False"
  using foldl_merge_closed [of "noFields\<lparr>next_inProgress := Some False\<rparr> # ds" s]
  by (auto simp: noFields_def)

lemma routerEffect_chat:
  assumes "inProgress s" and "oobRecord h = Some oob" and "connection h = Some c"
    and "nullish (goalCode oob) '''' \<notin> set GoalCodes"
  shows "routerEffect sv h s
    = ([noFields\<lparr>next_inProgress := Some False\<rparr>], viaParent sv (ResetToChat (conn_id c)))"
  using assms by (simp add: routerEffect_def)

lemma chat_round:
  assumes "inProgress s" and "oobRecord h = Some oob" and "connection h = Some c"
    and "nullish (goalCode oob) '''' \<notin> set GoalCodes" and "routerDepsChanged tr h s"
    and "\<not> (delayDepsChanged tr s \<and> shouldShowDelayMessage s \<and> notificationRecord s = None)"
    and "\<not> (openIDDepsChanged tr \<and> notificationRecord s \<noteq> None)"
  shows "\<not> inProgress (fst (flush sv tr h s))
    \<and> snd (flush sv tr h s) = viaParent sv (ResetToChat (conn_id c))"
proof -
  obtain ms where m: "matcherEffect h s = (ms, [])" "\<forall>d\<in>set ms. next_inProgress d = None"
    using matcherEffect_shape by blast
  let ?ds = "noFields\<lparr>next_inProgress := Some False\<rparr>
      # fst (whenChanged (matcherDepsChanged tr h s) (matcherEffect h s))"
  have d: "whenChanged (delayDepsChanged tr s) (delayEffect sv s) = noEffect"
    using assms(6) by (auto simp: whenChanged_def delayEffect_def)
  have o: "whenChanged (openIDDepsChanged tr) (openIDEffect s) = noEffect"
    using assms(7) by (auto simp: whenChanged_def openIDEffect_def)
  have r: "runEffects sv tr h s = (?ds, viaParent sv (ResetToChat (conn_id c)))"
    using routerEffect_chat [OF assms(1-4), of sv]
    by (simp add: runEffects_def d o whenChanged_True [OF assms(5)] andThen_def noEffect_def)
  have "\<forall>d\<in>set (fst (whenChanged (matcherDepsChanged tr h s) (matcherEffect h s))).
      next_inProgress d = None"
    using m by (simp add: whenChanged_def noEffect_def)
  then have c: "\<not> inProgress (foldl merge s ?ds)"
    using foldl_merge_close_first by blast
  show ?thesis
    using flush_resolving_round [OF r _ c] c by simp
qed

lemma close_merge: "merge s (noFields\<lparr>next_inProgress := Some False\<rparr>) = s\<lparr>inProgress := False\<rparr>"
  by (simp add: merge_def noFields_def)

lemma goal_codes_distinct:
  "credentialOffer \<noteq> proofRequestVerify" "credentialOffer \<noteq> proofRequestVerifyOnce"
  "proofRequestVerify \<noteq> proofRequestVerifyOnce"
  by (simp_all add: credentialOffer_def proofRequestVerify_def proofRequestVerifyOnce_def)

lemma routerEffect_goal_code:
  assumes "inProgress s" and "notificationRecord s = Some n" and "oobRecord h = Some oob"
    and "connection h = Some c"
  shows "goalCode oob = Some proofRequestVerify \<or> goalCode oob = Some proofRequestVerifyOnce \<Longrightarrow>
      routerEffect sv h s
        = ([noFields\<lparr>next_inProgress := Some False\<rparr>], [ReplaceProofRequest (notif_id n)])"
    and "goalCode oob = Some credentialOffer \<Longrightarrow>
      routerEffect sv h s
        = ([noFields\<lparr>next_inProgress := Some False\<rparr>], [ReplaceCredentialOffer (notif_id n)])"
  using assms goal_codes_distinct
  by (auto simp: routerEffect_def GoalCodes_def nullish_def)

lemma openID_part:
  assumes "inProgress s" and "notificationRecord s = Some n"
  shows "whenChanged (openIDDepsChanged tr) (openIDEffect s)
    = (if openIDDepsChanged tr
          \<and> (record_type n = W3cCredentialRecord \<or> record_type n = SdJwtVcRecord)
       then ([noFields\<lparr>next_inProgress := Some False\<rparr>], [ReplaceOpenIDCredentialDetails n])
       else noEffect)"
  using assms by (simp add: whenChanged_def openIDEffect_def)

lemma matched_round:
  assumes "inProgress s" and "notificationRecord s = Some n" and "routerDepsChanged tr h s"
    and "routerEffect sv h s = ([noFields\<lparr>next_inProgress := Some False\<rparr>], [call])"
  shows "flush sv tr h s
    = (s\<lparr>inProgress := False\<rparr>,
       call # (if openIDDepsChanged tr
                 \<and> (record_type n = W3cCredentialRecord \<or> record_type n = SdJwtVcRecord)
               then [ReplaceOpenIDCredentialDetails n] else []))"
proof -
  let ?O = "whenChanged (openIDDepsChanged tr) (openIDEffect s)"
  have d: "whenChanged (delayDepsChanged tr s) (delayEffect sv s) = noEffect"
    using assms(2) by (simp add: whenChanged_def delayEffect_def)
  have m: "whenChanged (matcherDepsChanged tr h s) (matcherEffect h s) = noEffect"
    using assms(2) by (simp add: whenChanged_def matcherEffect_def)
  have r: "runEffects sv tr h s
      = (noFields\<lparr>next_inProgress := Some False\<rparr> # fst ?O, call # snd ?O)"
    by (simp add: runEffects_def d m whenChanged_True [OF assms(3)] assms(4) andThen_def
        noEffect_def)
  have s': "foldl merge s (noFields\<lparr>next_inProgress := Some False\<rparr> # fst ?O) = s\<lparr>inProgress := False\<rparr>"
    by (simp add: openID_part [OF assms(1,2)] close_merge noEffect_def)
  have "flush sv tr h s = (s\<lparr>inProgress := False\<rparr>, call # snd ?O)"
    using flush_resolving_round [OF r] s' by simp
  then show ?thesis
    by (simp add: openID_part [OF assms(1,2)] noEffect_def)
qed

subsection \<open>Basic messages\<close>

text \<open>A feed of basic messages only.\<close>

lemma matcherLoop_basic:
  "list_all (\<lambda>n. record_type n = BasicMessageRecord) ns \<Longrightarrow> matcherLoop c oob ns = None"
  by (induction ns) simp_all

lemma routerEffect_unmatched:
  "notificationRecord s = None \<Longrightarrow> c \<in> set (snd (routerEffect sv h s)) \<Longrightarrow> \<not> matchCall c"
  by (auto simp: routerEffect_def noEffect_def viaParent_def split: option.splits bool.splits if_splits)

lemma round_unmatched:
  assumes "notificationRecord s = None"
  shows "list_all (\<lambda>c. \<not> matchCall c) (snd (runEffects sv tr h s))"
proof -
  have "\<not> matchCall c" if made: "c \<in> set (snd (runEffects sv tr h s))" for c
  proof -
    consider "c \<in> set (snd (whenChanged (delayDepsChanged tr s) (delayEffect sv s)))"
      | "c \<in> set (snd (routerEffect sv h s))" | "c \<in> set (snd (openIDEffect s))"
      using made runEffects_snd_subset [of sv tr h s] by blast
    then show ?thesis
    proof cases
      case 1
      then have "delayCall c"
        by (rule whenChanged_delay_calls)
      then show ?thesis
        by (cases c) simp_all
    next
      case 2
      then show ?thesis
        using assms routerEffect_unmatched by blast
    next
      case 3
      moreover have "openIDEffect s = noEffect"
        using assms by (simp add: openIDEffect_def)
      ultimately show ?thesis
        by (simp add: noEffect_def)
    qed
  qed
  then show ?thesis
    by (simp add: list_all_iff)
qed

lemma flush_basic:
  "basicOnly h \<Longrightarrow> notificationRecord s = None \<Longrightarrow>
   notificationRecord (fst (flush sv tr h s)) = None
   \<and> list_all (\<lambda>c. \<not> matchCall c) (snd (flush sv tr h s))"
proof (induction sv tr h s rule: flush.induct)
  case (1 sv tr h s)
  obtain ds cs where r: "runEffects sv tr h s = (ds, cs)"
    by (cases "runEffects sv tr h s")
  have cs: "list_all (\<lambda>c. \<not> matchCall c) cs"
    using round_unmatched [OF "1.prems"(2), of sv tr h] r by simp
  show ?case
  proof (cases "ds = []")
    case True
    then show ?thesis
      using r cs "1.prems"(2) by (simp add: flush_quiet)
  next
    case False
    have none: "matcherLoop (connection h) (oobRecord h) (notifications h) = None"
      using "1.prems"(1) by (simp add: basicOnly_def matcherLoop_basic)
    have "next_notificationRecord d = None" if "d \<in> set ds" for d
      using runEffects_dispatch_cases [of d sv tr h s] that r none by (auto simp: noFields_def)
    then have "notificationRecord (foldl merge s ds) = None"
      using "1.prems"(2) by (simp add: foldl_merge_notification_kept)
    then show ?thesis
      using "1.IH" [OF r [symmetric] False "1.prems"(1)] flush_again [OF r False] cs by simp
  qed
qed

lemma unmatched_mount: "basicOnly h \<Longrightarrow> unmatched (mount sv h)"
  using flush_basic [of h initialState sv Mounting]
  by (simp add: unmatched_def mount_def startTimer_def initialState_def)

lemma unmatched_step:
  assumes "unmatched i" and "basicOnlyEvent e"
  shows "unmatched (step sv e i)"
proof (cases e)
  case (Update h)
  then show ?thesis
    using assms flush_basic [of h "state i" sv "HooksChanged (hooks i)"]
    by (simp add: unmatched_def)
next
  case (TimerFired t)
  then show ?thesis
    using assms
      flush_basic [of "hooks i" "(state i)\<lparr>shouldShowDelayMessage := True\<rparr>" sv "Dispatched (state i)"]
    by (simp add: unmatched_def timer_merge)
next
  case DismissModalTouched
  then show ?thesis
    using assms
      flush_basic [of "hooks i" "(state i)\<lparr>inProgress := False, shouldShowDelayMessage := False\<rparr>"
        sv "Dispatched (state i)"]
    by (simp add: unmatched_def dismiss_merge viaParent_def)
next
  case Unmount
  then show ?thesis
    using assms by (simp add: unmatched_def)
qed

lemma unmatched_run:
  "unmatched i \<Longrightarrow> list_all basicOnlyEvent evs \<Longrightarrow> unmatched (run sv evs i)"
  by (induction evs arbitrary: i) (simp_all add: unmatched_step)

subsection \<open>The routing effect between events\<close>

lemma routerEffect_reads:
  "routerEffect sv (h\<lparr>notifications := ns\<rparr>) (s\<lparr>shouldShowDelayMessage := b\<rparr>)
     = routerEffect sv h s"
  by (simp add: routerEffect_def cong: option.case_cong prod.case_cong bool.case_cong if_cong)

lemma routerEffect_deps:
  assumes "oobRecord h = oobRecord h'" and "connection h = connection h'"
    and "inProgress s = inProgress s'" and "notificationRecord s = notificationRecord s'"
  shows "routerEffect sv h s = routerEffect sv h' s'"
proof -
  have "h' = h\<lparr>notifications := notifications h'\<rparr>"
    using assms(1,2) by simp
  moreover have "s' = s\<lparr>shouldShowDelayMessage := shouldShowDelayMessage s'\<rparr>"
    using assms(3,4) by simp
  ultimately show ?thesis
    using routerEffect_reads [where sv = sv and h = h and ns = "notifications h'" and s = s
        and b = "shouldShowDelayMessage s'"]
    by simp
qed

lemma round_router_idle:
  assumes r: "runEffects sv tr h s = (ds, cs)" and "inProgress (foldl merge s ds)"
    and pre: "\<not> routerDepsChanged tr h s \<Longrightarrow> routerEffect sv h s = noEffect"
  shows "routerEffect sv h s = noEffect"
proof (cases "routerDepsChanged tr h s")
  case False
  then show ?thesis
    by (rule pre)
next
  case True
  show ?thesis
  proof (rule ccontr)
    assume "routerEffect sv h s \<noteq> noEffect"
    then have "fst (routerEffect sv h s) = [noFields\<lparr>next_inProgress := Some False\<rparr>]"
      using routerEffect_cases [of sv h s] by auto
    then have "noFields\<lparr>next_inProgress := Some False\<rparr> \<in> set ds"
      using r True runEffects_fst [of sv tr h s] by (simp add: whenChanged_def)
    moreover have "next_inProgress (noFields\<lparr>next_inProgress := Some False\<rparr>) = Some False"
      by simp
    ultimately have "\<exists>d\<in>set ds. next_inProgress d = Some False"
      by blast
    moreover have "\<forall>d\<in>set ds. next_inProgress d \<noteq> Some True"
      using runEffects_lowers [of _ sv tr h s] r by simp
    ultimately have "\<not> inProgress (foldl merge s ds)"
      by (intro foldl_merge_closed)
    then show False
      using assms(2) by simp
  qed
qed

lemma flush_router_idle:
  "(\<not> routerDepsChanged tr h s \<Longrightarrow> routerEffect sv h s = noEffect) \<Longrightarrow>
   inProgress (fst (flush sv tr h s)) \<Longrightarrow>
   routerEffect sv h (fst (flush sv tr h s)) = noEffect"
proof (induction sv tr h s rule: flush.induct)
  case (1 sv tr h s)
  obtain ds cs where r: "runEffects sv tr h s = (ds, cs)"
    by (cases "runEffects sv tr h s")
  show ?case
  proof (cases "ds = []")
    case True
    then have "fst (flush sv tr h s) = s"
      using r by (simp add: flush_quiet)
    moreover have still: "inProgress (foldl merge s ds)"
      using True calculation "1.prems"(2) by simp
    have "routerEffect sv h s = noEffect"
      using r still "1.prems"(1) by (rule round_router_idle)
    ultimately show ?thesis
      by simp
  next
    case False
    let ?s' = "foldl merge s ds"
    have unfold: "fst (flush sv tr h s) = fst (flush sv (Dispatched s) h ?s')"
      using flush_again [OF r False] by simp
    have s': "inProgress ?s'"
      using "1.prems"(2) unfold flush_settles [of ?s' sv "Dispatched s" h] by (simp add: settles_def)
    have idle: "routerEffect sv h s = noEffect"
      using r s' "1.prems"(1) by (rule round_router_idle)
    have next_idle: "routerEffect sv h ?s' = noEffect"
      if "\<not> routerDepsChanged (Dispatched s) h ?s'"
    proof -
      have "routerEffect sv h ?s' = routerEffect sv h s"
        using that by (intro routerEffect_deps) simp_all
      then show ?thesis
        using idle by simp
    qed
    have "inProgress (fst (flush sv (Dispatched s) h ?s'))"
      using "1.prems"(2) unfold by simp
    then have "routerEffect sv h (fst (flush sv (Dispatched s) h ?s')) = noEffect"
      using "1.IH" [OF r [symmetric] False next_idle] by blast
    then show ?thesis
      using unfold by simp
  qed
qed

lemma routerIdle_mount: "routerIdle sv (mount sv h)"
  using flush_router_idle [of Mounting h initialState sv]
  by (simp add: routerIdle_def mount_def startTimer_def)

lemma routerIdle_step:
  assumes "routerIdle sv i"
  shows "routerIdle sv (step sv e i)"
proof (cases e)
  case (Update h)
  show ?thesis
  proof (cases "mounted i")
    case True
    have "routerEffect sv h (state i) = noEffect"
      if "\<not> routerDepsChanged (HooksChanged (hooks i)) h (state i)"
    proof (cases "inProgress (state i)")
      case True
      then show ?thesis
        using that assms routerEffect_deps [of h "hooks i" "state i" "state i" sv]
        by (simp add: routerIdle_def)
    next
      case False
      then show ?thesis
        by (rule routerEffect_resolved)
    qed
    then show ?thesis
      using Update True flush_router_idle [of "HooksChanged (hooks i)" h "state i" sv]
      by (simp add: routerIdle_def)
  next
    case False
    then show ?thesis
      using Update assms by simp
  qed
next
  case (TimerFired t)
  let ?s1 = "(state i)\<lparr>shouldShowDelayMessage := True\<rparr>"
  have "routerEffect sv (hooks i) ?s1 = noEffect"
  proof (cases "inProgress (state i)")
    case True
    then show ?thesis
      using assms routerEffect_deps [of "hooks i" "hooks i" ?s1 "state i" sv]
      by (simp add: routerIdle_def)
  next
    case False
    then show ?thesis
      by (intro routerEffect_resolved) simp
  qed
  then show ?thesis
    using TimerFired assms flush_router_idle [of "Dispatched (state i)" "hooks i" ?s1 sv]
    by (simp add: routerIdle_def timer_merge)
next
  case DismissModalTouched
  let ?s1 = "(state i)\<lparr>inProgress := False, shouldShowDelayMessage := False\<rparr>"
  have "\<not> inProgress (fst (flush sv (Dispatched (state i)) (hooks i) ?s1))"
    using flush_settles [of ?s1 sv "Dispatched (state i)" "hooks i"] by (simp add: settles_def)
  then show ?thesis
    using DismissModalTouched assms by (simp add: routerIdle_def dismiss_merge)
next
  case Unmount
  then show ?thesis
    using assms by (simp add: routerIdle_def)
qed

lemma routerIdle_run: "routerIdle sv i \<Longrightarrow> routerIdle sv (run sv evs i)"
  by (induction evs arbitrary: i) (simp_all add: routerIdle_step)

lemma routerIdle_reachable: "routerIdle sv (run sv evs (mount sv h))"
  by (simp add: routerIdle_run routerIdle_mount)

subsection \<open>The matching effect between events\<close>

lemma foldl_merge_notification_set:
  "\<exists>d\<in>set ds. next_notificationRecord d \<noteq> None \<Longrightarrow> notificationRecord (foldl merge s ds) \<noteq> None"
proof (induction ds arbitrary: s)
  case Nil
  then show ?case by simp
next
  case (Cons d ds)
  show ?case
  proof (cases "\<exists>d\<in>set ds. next_notificationRecord d \<noteq> None")
    case True
    then show ?thesis
      using Cons.IH [of "merge s d"] by simp
  next
    case False
    then have "next_notificationRecord d \<noteq> None"
      and "\<forall>d\<in>set ds. next_notificationRecord d = None"
      using Cons.prems by auto
    then show ?thesis
      by (auto simp: foldl_merge_notification_kept)
  qed
qed

lemma flush_unmatched_start:
  assumes "inProgress (fst (flush sv tr h s))" and "notificationRecord (fst (flush sv tr h s)) = None"
  shows "inProgress s" and "notificationRecord s = None"
  using assms flush_settles [of s sv tr h] by (auto simp: settles_def)

lemma flush_matcher_idle:
  assumes "inProgress (fst (flush sv tr h s))" and "notificationRecord (fst (flush sv tr h s)) = None"
    and "matcherDepsChanged tr h s"
  shows "matcherLoop (connection h) (oobRecord h) (notifications h) = None"
proof (rule ccontr)
  assume "matcherLoop (connection h) (oobRecord h) (notifications h) \<noteq> None"
  then obtain n where n: "matcherLoop (connection h) (oobRecord h) (notifications h) = Some n"
    by auto
  note s = flush_unmatched_start [OF assms(1,2)]
  obtain ds cs where r: "runEffects sv tr h s = (ds, cs)"
    by (cases "runEffects sv tr h s")
  have "whenChanged (matcherDepsChanged tr h s) (matcherEffect h s)
      = ([noFields\<lparr>next_notificationRecord := Some n\<rparr>], [])"
    using s n assms(3) by (simp add: whenChanged_def matcherEffect_def)
  then have "noFields\<lparr>next_notificationRecord := Some n\<rparr> \<in> set ds"
    using r runEffects_fst [of sv tr h s] by simp
  moreover have "next_notificationRecord (noFields\<lparr>next_notificationRecord := Some n\<rparr>) \<noteq> None"
    by simp
  ultimately have ex: "\<exists>d\<in>set ds. next_notificationRecord d \<noteq> None"
    by blast
  then have set: "notificationRecord (foldl merge s ds) \<noteq> None"
    by (rule foldl_merge_notification_set)
  have "ds \<noteq> []"
    using ex by auto
  then have "fst (flush sv tr h s) = fst (flush sv (Dispatched s) h (foldl merge s ds))"
    using flush_again [OF r] by simp
  then have "notificationRecord (fst (flush sv tr h s)) = notificationRecord (foldl merge s ds)"
    using set flush_settles [of "foldl merge s ds" sv "Dispatched s" h] by (simp add: settles_def)
  then show False
    using set assms(2) by simp
qed

lemma matcherIdle_mount: "matcherIdle (mount sv h)"
  using flush_matcher_idle [of sv Mounting h initialState]
  by (simp add: matcherIdle_def mount_def startTimer_def)

lemma matcherIdle_step:
  assumes "matcherIdle i"
  shows "matcherIdle (step sv e i)"
proof (cases e)
  case (Update h)
  show ?thesis
  proof (cases "mounted i")
    case True
    let ?F = "flush sv (HooksChanged (hooks i)) h (state i)"
    have "matcherLoop (connection h) (oobRecord h) (notifications h) = None"
      if a: "inProgress (fst ?F)" and b: "notificationRecord (fst ?F) = None"
    proof (cases "matcherDepsChanged (HooksChanged (hooks i)) h (state i)")
      case True
      with a b show ?thesis
        by (rule flush_matcher_idle)
    next
      case False
      then show ?thesis
        using assms flush_unmatched_start [OF a b] by (simp add: matcherIdle_def)
    qed
    then show ?thesis
      using Update True by (simp add: matcherIdle_def)
  next
    case False
    then show ?thesis
      using Update assms by simp
  qed
next
  case (TimerFired t)
  let ?s1 = "(state i)\<lparr>shouldShowDelayMessage := True\<rparr>"
  let ?F = "flush sv (Dispatched (state i)) (hooks i) ?s1"
  have "matcherLoop (connection (hooks i)) (oobRecord (hooks i)) (notifications (hooks i)) = None"
    if a: "inProgress (fst ?F)" and b: "notificationRecord (fst ?F) = None"
    using assms flush_unmatched_start [OF a b] by (simp add: matcherIdle_def)
  then show ?thesis
    using TimerFired assms by (simp add: matcherIdle_def timer_merge)
next
  case DismissModalTouched
  let ?s1 = "(state i)\<lparr>inProgress := False, shouldShowDelayMessage := False\<rparr>"
  have "\<not> inProgress (fst (flush sv (Dispatched (state i)) (hooks i) ?s1))"
    using flush_settles [of ?s1 sv "Dispatched (state i)" "hooks i"] by (simp add: settles_def)
  then show ?thesis
    using DismissModalTouched assms by (simp add: matcherIdle_def dismiss_merge)
next
  case Unmount
  then show ?thesis
    using assms by (simp add: matcherIdle_def)
qed

lemma matcherIdle_run: "matcherIdle i \<Longrightarrow> matcherIdle (run sv evs i)"
  by (induction evs arbitrary: i) (simp_all add: matcherIdle_step)

lemma matcherIdle_reachable: "matcherIdle (run sv evs (mount sv h))"
  by (simp add: matcherIdle_run matcherIdle_mount)

subsection \<open>Matching and routing in one flush\<close>

lemma routerEffect_routes:
  assumes "inProgress s" and "notificationRecord s = Some n" and "oobRecord h = Some oob"
    and "connection h = Some c"
    and "(goalCode oob = Some proofRequestVerify \<or> goalCode oob = Some proofRequestVerifyOnce)
          \<and> call = ReplaceProofRequest (notif_id n)
        \<or> goalCode oob = Some credentialOffer \<and> call = ReplaceCredentialOffer (notif_id n)"
  shows "routerEffect sv h s = ([noFields\<lparr>next_inProgress := Some False\<rparr>], [call])"
  using assms(5) routerEffect_goal_code [OF assms(1-4), of sv] by blast

lemma routerEffect_waits:
  assumes "notificationRecord s = None" and "oobRecord h = Some oob" and "connection h = Some c"
    and "goalCode oob = Some proofRequestVerify \<or> goalCode oob = Some proofRequestVerifyOnce
        \<or> goalCode oob = Some credentialOffer"
  shows "routerEffect sv h s = noEffect"
  using assms by (auto simp: routerEffect_def GoalCodes_def nullish_def)

lemma notification_merge:
  "merge s (noFields\<lparr>next_notificationRecord := Some n\<rparr>) = s\<lparr>notificationRecord := Some n\<rparr>"
  by (simp add: merge_def noFields_def)

lemma match_and_route:
  assumes "inProgress s" and "notificationRecord s = None" and "oobRecord h = Some oob"
    and "connection h = Some c"
    and g: "(goalCode oob = Some proofRequestVerify \<or> goalCode oob = Some proofRequestVerifyOnce)
          \<and> call = ReplaceProofRequest (notif_id n)
        \<or> goalCode oob = Some credentialOffer \<and> call = ReplaceCredentialOffer (notif_id n)"
    and loop: "matcherLoop (connection h) (oobRecord h) (notifications h) = Some n"
    and plain: "record_type n \<noteq> W3cCredentialRecord" "record_type n \<noteq> SdJwtVcRecord"
    and runs: "matcherDepsChanged tr h s"
    and quiet: "\<not> (delayDepsChanged tr s \<and> shouldShowDelayMessage s)"
  shows "flush sv tr h s = (s\<lparr>notificationRecord := Some n, inProgress := False\<rparr>, [call])"
proof -
  let ?d = "noFields\<lparr>next_notificationRecord := Some n\<rparr>"
  let ?s1 = "s\<lparr>notificationRecord := Some n\<rparr>"
  have d: "whenChanged (delayDepsChanged tr s) (delayEffect sv s) = noEffect"
    using quiet by (auto simp: whenChanged_def delayEffect_def)
  have "goalCode oob = Some proofRequestVerify \<or> goalCode oob = Some proofRequestVerifyOnce
      \<or> goalCode oob = Some credentialOffer"
    using g by blast
  then have w: "routerEffect sv h s = noEffect"
    using assms(2-4) by (intro routerEffect_waits)
  have o: "openIDEffect s = noEffect"
    using assms(2) by (simp add: openIDEffect_def)
  have m: "matcherEffect h s = ([?d], [])"
    using assms(1,2) loop by (simp add: matcherEffect_def)
  have r: "runEffects sv tr h s = ([?d], [])"
    by (simp add: runEffects_def d w o m whenChanged_True [OF runs])
  have s1: "foldl merge s [?d] = ?s1"
    by (simp add: notification_merge)
  have "routerEffect sv h ?s1 = ([noFields\<lparr>next_inProgress := Some False\<rparr>], [call])"
    using assms(1,3,4) g by (intro routerEffect_routes) simp_all
  then have "flush sv (Dispatched s) h ?s1 = (?s1\<lparr>inProgress := False\<rparr>, [call])"
    using assms(1,2) plain matched_round [of ?s1 n "Dispatched s" h sv call] by simp
  then show ?thesis
    using flush_again [OF r] s1 by simp
qed

section \<open>The claims\<close>

text \<open>C1, as amended. Over every sequence of events after mounting, the router makes
  at most one navigation call and the OpenID effect makes at most one. Once
  \<open>inProgress\<close> is false it stays false, \<open>notificationRecord\<close> does not change any
  more, and every later call is \<open>NavigateHome\<close> (dismiss button, watchdog with
  auto-redirect) or the announcement of the delay: the calls made so far stay a prefix of
  the log, and what follows them comes from the delay effect or the button.\<close>

theorem resolved_is_terminal:
  "length (filter routerCall (calls (run sv evs (mount sv h)))) \<le> 1
   \<and> length (filter openIDCall (calls (run sv evs (mount sv h)))) \<le> 1
   \<and> (\<not> inProgress (state i) \<longrightarrow>
        \<not> inProgress (state (run sv evs' i))
        \<and> notificationRecord (state (run sv evs' i)) = notificationRecord (state i)
        \<and> take (length (calls i)) (calls (run sv evs' i)) = calls i
        \<and> list_all delayCall (drop (length (calls i)) (calls (run sv evs' i))))"
proof -
  have "decidesOnce (run sv evs (mount sv h))"
    by (simp add: decidesOnce_run decidesOnce_mount)
  moreover have "take (length (calls i)) (calls (run sv evs' i)) = calls i
      \<and> list_all delayCall (drop (length (calls i)) (calls (run sv evs' i)))"
    if "\<not> inProgress (state i)"
    using run_resolved [OF that, of sv evs'] by auto
  ultimately show ?thesis
    using run_resolved [of i sv evs'] by (simp add: decidesOnce_def)
qed

theorem resolved_is_terminal_witness:
  "length (filter routerCall (calls (run redirectServices
       [Update chatHooks, TimerFired 1, DismissModalTouched] (mount redirectServices waitingHooks)))) \<le> 1
   \<and> length (filter openIDCall (calls (run redirectServices
       [Update chatHooks, TimerFired 1, DismissModalTouched] (mount redirectServices waitingHooks)))) \<le> 1
   \<and> \<not> inProgress (state (mount redirectServices chatHooks))
   \<and> \<not> inProgress (state (run redirectServices [TimerFired 1, DismissModalTouched]
         (mount redirectServices chatHooks)))
   \<and> notificationRecord (state (run redirectServices [TimerFired 1, DismissModalTouched]
         (mount redirectServices chatHooks)))
       = notificationRecord (state (mount redirectServices chatHooks))
   \<and> take (length (calls (mount redirectServices chatHooks)))
        (calls (run redirectServices [TimerFired 1, DismissModalTouched]
           (mount redirectServices chatHooks)))
       = calls (mount redirectServices chatHooks)
   \<and> list_all delayCall (drop (length (calls (mount redirectServices chatHooks)))
        (calls (run redirectServices [TimerFired 1, DismissModalTouched]
           (mount redirectServices chatHooks))))"
proof -
  have r: "\<not> inProgress (state (mount redirectServices chatHooks))"
    by (simp add: model_defs example_defs)
  show ?thesis
    using r resolved_is_terminal [of redirectServices
        "[Update chatHooks, TimerFired 1, DismissModalTouched]" waitingHooks
        "mount redirectServices chatHooks" "[TimerFired 1, DismissModalTouched]"]
    by blast
qed

text \<open>C1 as stated fails: the screen with a connection and an unknown goal code
  navigates to Chat when it mounts; the timer is still pending, and when it fires the
  screen navigates again (to Home, with auto-redirect) or changes
  \<open>shouldShowDelayMessage\<close> (without auto-redirect).\<close>

theorem navigation_after_resolution_counterexample:
  "calls (mount redirectServices chatHooks) = [ResetToChat ''conn-1'']
   \<and> calls (run redirectServices [TimerFired 1] (mount redirectServices chatHooks))
       = [ResetToChat ''conn-1'', NavigateHome]
   \<and> state (run noticeServices [TimerFired 1] (mount noticeServices chatHooks))
       = (state (mount noticeServices chatHooks))\<lparr>shouldShowDelayMessage := True\<rparr>
   \<and> \<not> shouldShowDelayMessage (state (mount noticeServices chatHooks))"
  by (simp add: model_defs example_defs)

text \<open>C2 fails on the code. No connection, the goal code \<open>aries.vc.verify.once\<close>,
  and a \<open>W3cCredentialRecord\<close> without connection or thread appears in the feed: the
  matching effect takes it, and in the next render the routing effect (no connection,
  so a connectionless proof request) and the OpenID effect both see \<open>inProgress\<close>
  true. The screen calls \<open>navigation.replace\<close> for the proof request first and for
  the OpenID credential details after it.\<close>

theorem w3c_credential_navigates_twice:
  "oobRecord waitingHooks = Some verifyOnceInvitation
   \<and> goalCode verifyOnceInvitation = Some ''aries.vc.verify.once''
   \<and> connection waitingHooks = None
   \<and> calls (mount redirectServices waitingHooks) = []
   \<and> state (run redirectServices [Update (waitingHooks\<lparr>notifications := [w3cNotification]\<rparr>)]
        (mount redirectServices waitingHooks))
       = \<lparr>inProgress = False, notificationRecord = Some w3cNotification,
          shouldShowDelayMessage = False\<rparr>
   \<and> calls (run redirectServices [Update (waitingHooks\<lparr>notifications := [w3cNotification]\<rparr>)]
        (mount redirectServices waitingHooks))
       = [ReplaceProofRequest ''w3c-1'', ReplaceOpenIDCredentialDetails w3cNotification]"
  by (simp add: model_defs example_defs)

text \<open>C3, as amended. Unmounting cancels the pending timer: from mounting on, after any
  sequence of events, no timeout is left once the screen is unmounted, and no event after
  that changes anything, so the timer never fires after teardown. Resolution and the
  dismiss button do not cancel the timer.\<close>

theorem teardown_cancels_watchdog:
  "timeouts (step sv Unmount (run sv evs (mount sv h))) = []
   \<and> run sv evs' (step sv Unmount (run sv evs (mount sv h)))
       = step sv Unmount (run sv evs (mount sv h))"
  using unmount_clears [OF watchdogSound_reachable, of sv sv evs h]
  by (simp add: unmounted_stays_inert)

text \<open>C3 as stated fails: after the router has resolved to the credential offer the
  timeout is still pending, and when it fires it sets \<open>shouldShowDelayMessage\<close>.\<close>

theorem timer_fires_after_resolution_counterexample:
  "\<not> inProgress (state (mount noticeServices offerHooks))
   \<and> calls (mount noticeServices offerHooks) = [ReplaceCredentialOffer ''cred-1'']
   \<and> timeouts (mount noticeServices offerHooks) = [(1, 10000)]
   \<and> \<not> shouldShowDelayMessage (state (mount noticeServices offerHooks))
   \<and> shouldShowDelayMessage (state (step noticeServices (TimerFired 1)
        (mount noticeServices offerHooks)))"
  by (simp add: model_defs example_defs)

text \<open>C4, as amended. On a mounted screen the dismiss button, whatever the value of
  \<open>inProgress\<close>, sets \<open>inProgress\<close> and \<open>shouldShowDelayMessage\<close> to false and
  navigates to Home through the parent navigator; nothing else changes, in particular the
  timer stays as it is. Pressing the button again does the same again.\<close>

theorem dismiss_navigates_home_every_time:
  "mounted i \<Longrightarrow>
   step sv DismissModalTouched i
     = i\<lparr>state := (state i)\<lparr>inProgress := False, shouldShowDelayMessage := False\<rparr>,
          calls := calls i @ viaParent sv NavigateHome\<rparr>
   \<and> timeouts (step sv DismissModalTouched i) = timeouts i
   \<and> timerRef (step sv DismissModalTouched i) = timerRef i"
  by (simp add: render_def dismiss_merge flush_resolved)

theorem dismiss_navigates_home_every_time_witness:
  "mounted (step redirectServices DismissModalTouched (mount redirectServices waitingHooks))
   \<and> step redirectServices DismissModalTouched
        (step redirectServices DismissModalTouched (mount redirectServices waitingHooks))
     = (step redirectServices DismissModalTouched (mount redirectServices waitingHooks))
         \<lparr>state := (state (step redirectServices DismissModalTouched
                     (mount redirectServices waitingHooks)))
                   \<lparr>inProgress := False, shouldShowDelayMessage := False\<rparr>,
          calls := calls (step redirectServices DismissModalTouched
                     (mount redirectServices waitingHooks)) @ viaParent redirectServices NavigateHome\<rparr>
   \<and> timeouts (step redirectServices DismissModalTouched
        (step redirectServices DismissModalTouched (mount redirectServices waitingHooks)))
     = timeouts (step redirectServices DismissModalTouched (mount redirectServices waitingHooks))
   \<and> timerRef (step redirectServices DismissModalTouched
        (step redirectServices DismissModalTouched (mount redirectServices waitingHooks)))
     = timerRef (step redirectServices DismissModalTouched (mount redirectServices waitingHooks))"
proof -
  have m: "mounted (step redirectServices DismissModalTouched (mount redirectServices waitingHooks))"
    by (simp add: mount_def startTimer_def)
  show ?thesis
    using m dismiss_navigates_home_every_time [OF m, of redirectServices] by blast
qed

text \<open>C4 as stated fails: after the first press the timeout is still pending, and the
  second press navigates to Home a second time.\<close>

theorem second_dismiss_counterexample:
  "\<not> inProgress (state (run redirectServices [DismissModalTouched]
        (mount redirectServices waitingHooks)))
   \<and> timeouts (run redirectServices [DismissModalTouched] (mount redirectServices waitingHooks))
       = [(1, 10000)]
   \<and> calls (run redirectServices [DismissModalTouched] (mount redirectServices waitingHooks))
       = [NavigateHome]
   \<and> calls (run redirectServices [DismissModalTouched, DismissModalTouched]
        (mount redirectServices waitingHooks)) = [NavigateHome, NavigateHome]"
  by (simp add: model_defs example_defs)

text \<open>C5. With auto-redirect enabled and a parent navigator, when the timer fires on a
  mounted screen that has no matched notification (reached from mounting by any sequence
  of events), exactly one call is made, \<open>NavigateHome\<close>, and \<open>inProgress\<close> becomes
  false. No timeout is pending afterwards, whatever happens next, so a further firing
  changes nothing; and unless the dismiss button is pressed no further call is made.\<close>

theorem watchdog_redirects_home_once:
  assumes "autoRedirectConnectionToHome sv" and "parentNavigator sv"
    and "i = run sv evs (mount sv h)" and "mounted i"
    and "notificationRecord (state i) = None" and "t \<in> set (map fst (timeouts i))"
  shows "calls (step sv (TimerFired t) i) = calls i @ [NavigateHome]
    \<and> \<not> inProgress (state (step sv (TimerFired t) i))
    \<and> timeouts (run sv evs' (step sv (TimerFired t) i)) = []
    \<and> step sv (TimerFired t') (run sv evs' (step sv (TimerFired t) i))
        = run sv evs' (step sv (TimerFired t) i)
    \<and> (list_all (\<lambda>e. \<not> isDismiss e) evs'
         \<longrightarrow> calls (run sv evs' (step sv (TimerFired t) i)) = calls i @ [NavigateHome])"
proof -
  have sound: "watchdogSound i"
    using assms(3) by (simp add: watchdogSound_reachable)
  let ?i' = "step sv (TimerFired t) i"
  have i': "?i' = i\<lparr>timeouts := [], timerRef := None, state := (state i)\<lparr>inProgress := False\<rparr>,
      calls := calls i @ [NavigateHome]\<rparr>"
    using timer_step [OF sound assms(4,5,6), of sv] assms(1,2) by (simp add: viaParent_def)
  have off: "\<not> shouldShowDelayMessage (state ?i')"
    using pending_timer(2) [OF sound assms(6)] i' by simp
  have none: "timeouts (run sv evs' ?i') = []"
    using i' by (intro run_no_timeouts) simp
  have "calls (run sv evs' ?i') = calls i @ [NavigateHome]"
    if "list_all (\<lambda>e. \<not> isDismiss e) evs'"
    using run_after_redirect [of ?i' evs' sv] that off i' by simp
  then show ?thesis
    using i' none timer_does_not_fire [OF none] by simp
qed

theorem watchdog_redirects_home_once_witness:
  "autoRedirectConnectionToHome redirectServices \<and> parentNavigator redirectServices
   \<and> mounted (run redirectServices [Update (waitingHooks\<lparr>notifications := [basicMessage]\<rparr>)]
        (mount redirectServices waitingHooks))
   \<and> notificationRecord (state (run redirectServices
        [Update (waitingHooks\<lparr>notifications := [basicMessage]\<rparr>)]
        (mount redirectServices waitingHooks))) = None
   \<and> 1 \<in> set (map fst (timeouts (run redirectServices
        [Update (waitingHooks\<lparr>notifications := [basicMessage]\<rparr>)]
        (mount redirectServices waitingHooks))))
   \<and> calls (step redirectServices (TimerFired 1) (run redirectServices
        [Update (waitingHooks\<lparr>notifications := [basicMessage]\<rparr>)]
        (mount redirectServices waitingHooks)))
       = calls (run redirectServices [Update (waitingHooks\<lparr>notifications := [basicMessage]\<rparr>)]
           (mount redirectServices waitingHooks)) @ [NavigateHome]
   \<and> \<not> inProgress (state (step redirectServices (TimerFired 1) (run redirectServices
        [Update (waitingHooks\<lparr>notifications := [basicMessage]\<rparr>)]
        (mount redirectServices waitingHooks))))
   \<and> timeouts (run redirectServices [Update chatHooks, TimerFired 1]
        (step redirectServices (TimerFired 1) (run redirectServices
          [Update (waitingHooks\<lparr>notifications := [basicMessage]\<rparr>)]
          (mount redirectServices waitingHooks)))) = []
   \<and> list_all (\<lambda>e. \<not> isDismiss e) [Update chatHooks, TimerFired 1]
   \<and> calls (run redirectServices [Update chatHooks, TimerFired 1]
        (step redirectServices (TimerFired 1) (run redirectServices
          [Update (waitingHooks\<lparr>notifications := [basicMessage]\<rparr>)]
          (mount redirectServices waitingHooks))))
       = calls (run redirectServices [Update (waitingHooks\<lparr>notifications := [basicMessage]\<rparr>)]
           (mount redirectServices waitingHooks)) @ [NavigateHome]"
proof -
  let ?i = "run redirectServices [Update (waitingHooks\<lparr>notifications := [basicMessage]\<rparr>)]
    (mount redirectServices waitingHooks)"
  have a: "autoRedirectConnectionToHome redirectServices" "parentNavigator redirectServices"
    by (simp_all add: redirectServices_def)
  have m: "mounted ?i"
    by (simp add: mount_def startTimer_def)
  have n: "notificationRecord (state ?i) = None"
    by (simp add: model_defs example_defs)
  have t: "1 \<in> set (map fst (timeouts ?i))"
    by (simp add: mount_def startTimer_def)
  have l: "list_all (\<lambda>e. \<not> isDismiss e) [Update chatHooks, TimerFired 1]"
    by simp
  show ?thesis
    using a m n t l
      watchdog_redirects_home_once [OF a refl m n t, of "[Update chatHooks, TimerFired 1]" 1]
    by blast
qed

text \<open>C6. With auto-redirect disabled, when the timer fires on a mounted screen that
  has no matched notification (reached from mounting by any sequence of events), the
  state changes in \<open>shouldShowDelayMessage\<close> only, so \<open>inProgress\<close> keeps its value,
  and the announcement is made; whatever events follow, the log holds the announcement
  exactly once.\<close>

theorem watchdog_notice_once:
  assumes "\<not> autoRedirectConnectionToHome sv"
    and "i = run sv evs (mount sv h)" and "mounted i"
    and "notificationRecord (state i) = None" and "t \<in> set (map fst (timeouts i))"
  shows "state (step sv (TimerFired t) i) = (state i)\<lparr>shouldShowDelayMessage := True\<rparr>
    \<and> inProgress (state (step sv (TimerFired t) i)) = inProgress (state i)
    \<and> calls (step sv (TimerFired t) i) = calls i @ [AnnounceTakingTooLong]
    \<and> count_list (calls (run sv evs' (step sv (TimerFired t) i))) AnnounceTakingTooLong = 1"
proof -
  have sound: "watchdogSound i"
    using assms(2) by (simp add: watchdogSound_reachable)
  let ?i' = "step sv (TimerFired t) i"
  have i': "?i' = i\<lparr>timeouts := [], timerRef := None,
      state := (state i)\<lparr>shouldShowDelayMessage := True\<rparr>,
      calls := calls i @ [AnnounceTakingTooLong]\<rparr>"
    using timer_step [OF sound assms(3,4,5), of sv] assms(1) by simp
  have "count_list (calls i) AnnounceTakingTooLong = 0"
    using pending_timer(3) [OF sound assms(5)] by (rule count_list_absent)
  then have "count_list (calls ?i') AnnounceTakingTooLong = 1"
    using i' by simp
  moreover have "timeouts ?i' = []"
    using i' by simp
  ultimately have "count_list (calls (run sv evs' ?i')) AnnounceTakingTooLong = 1"
    using run_announces_nothing [of ?i' sv evs'] by simp
  then show ?thesis
    using i' by simp
qed

theorem watchdog_notice_once_witness:
  "\<not> autoRedirectConnectionToHome noticeServices
   \<and> mounted (run noticeServices [Update (waitingHooks\<lparr>notifications := [basicMessage]\<rparr>)]
        (mount noticeServices waitingHooks))
   \<and> notificationRecord (state (run noticeServices
        [Update (waitingHooks\<lparr>notifications := [basicMessage]\<rparr>)]
        (mount noticeServices waitingHooks))) = None
   \<and> 1 \<in> set (map fst (timeouts (run noticeServices
        [Update (waitingHooks\<lparr>notifications := [basicMessage]\<rparr>)]
        (mount noticeServices waitingHooks))))
   \<and> inProgress (state (step noticeServices (TimerFired 1) (run noticeServices
        [Update (waitingHooks\<lparr>notifications := [basicMessage]\<rparr>)]
        (mount noticeServices waitingHooks))))
   \<and> shouldShowDelayMessage (state (step noticeServices (TimerFired 1) (run noticeServices
        [Update (waitingHooks\<lparr>notifications := [basicMessage]\<rparr>)]
        (mount noticeServices waitingHooks))))
   \<and> calls (step noticeServices (TimerFired 1) (run noticeServices
        [Update (waitingHooks\<lparr>notifications := [basicMessage]\<rparr>)]
        (mount noticeServices waitingHooks))) = [AnnounceTakingTooLong]
   \<and> count_list (calls (run noticeServices
        [Update waitingHooks, TimerFired 1, Update (waitingHooks\<lparr>notifications := [basicMessage]\<rparr>)]
        (step noticeServices (TimerFired 1) (run noticeServices
          [Update (waitingHooks\<lparr>notifications := [basicMessage]\<rparr>)]
          (mount noticeServices waitingHooks))))) AnnounceTakingTooLong = 1"
proof -
  let ?i = "run noticeServices [Update (waitingHooks\<lparr>notifications := [basicMessage]\<rparr>)]
    (mount noticeServices waitingHooks)"
  have a: "\<not> autoRedirectConnectionToHome noticeServices"
    by (simp add: noticeServices_def)
  have m: "mounted ?i"
    by (simp add: mount_def startTimer_def)
  have n: "notificationRecord (state ?i) = None"
    by (simp add: model_defs example_defs)
  have t: "1 \<in> set (map fst (timeouts ?i))"
    by (simp add: mount_def startTimer_def)
  have p: "inProgress (state ?i)" and c: "calls ?i = []"
    by (simp_all add: model_defs example_defs)
  show ?thesis
    using a m n t p c
      watchdog_notice_once [OF a refl m n t,
        of "[Update waitingHooks, TimerFired 1, Update (waitingHooks\<lparr>notifications := [basicMessage]\<rparr>)]"]
    by simp
qed

text \<open>C7. With a parent navigator, an invitation whose goal code is none of the three
  known ones, and a connection: mounting with these hook values makes the single call
  \<open>ResetToChat\<close> with the id of the connection and clears \<open>inProgress\<close>; so does
  their delivery to a mounted screen that is still in progress, whatever events it has
  seen since it was mounted. Neither needs a notification: the feed and
  \<open>notificationRecord\<close> are arbitrary, the feed may be empty.\<close>

theorem unknown_goal_routes_to_chat:
  assumes "parentNavigator sv" and "oobRecord h = Some oob" and "connection h = Some c"
    and "nullish (goalCode oob) '''' \<notin> set GoalCodes"
  shows "calls (mount sv h) = [ResetToChat (conn_id c)] \<and> \<not> inProgress (state (mount sv h))
    \<and> (mounted (run sv evs (mount sv h0)) \<and> inProgress (state (run sv evs (mount sv h0)))
        \<longrightarrow> calls (step sv (Update h) (run sv evs (mount sv h0)))
              = calls (run sv evs (mount sv h0)) @ [ResetToChat (conn_id c)]
          \<and> \<not> inProgress (state (step sv (Update h) (run sv evs (mount sv h0)))))"
proof -
  have "\<not> inProgress (fst (flush sv Mounting h initialState))
      \<and> snd (flush sv Mounting h initialState) = viaParent sv (ResetToChat (conn_id c))"
    using assms(2-4) by (intro chat_round) (simp_all add: initialState_def)
  then have first: "calls (mount sv h) = [ResetToChat (conn_id c)] \<and> \<not> inProgress (state (mount sv h))"
    using assms(1) by (simp add: mount_def startTimer_def viaParent_def)
  let ?i = "run sv evs (mount sv h0)"
  have "calls (step sv (Update h) ?i) = calls ?i @ [ResetToChat (conn_id c)]
      \<and> \<not> inProgress (state (step sv (Update h) ?i))"
    if "mounted ?i" and "inProgress (state ?i)"
  proof -
    have idle: "routerEffect sv (hooks ?i) (state ?i) = noEffect"
      using that(2) routerIdle_reachable [of sv evs h0] by (simp add: routerIdle_def)
    have "routerEffect sv h (state ?i) \<noteq> noEffect"
      using routerEffect_chat [OF that(2) assms(2-4), of sv] by (simp add: noEffect_def)
    then have "routerDepsChanged (HooksChanged (hooks ?i)) h (state ?i)"
      using idle routerEffect_deps [of h "hooks ?i" "state ?i" "state ?i" sv] by auto
    then have "\<not> inProgress (fst (flush sv (HooksChanged (hooks ?i)) h (state ?i)))
        \<and> snd (flush sv (HooksChanged (hooks ?i)) h (state ?i)) = viaParent sv (ResetToChat (conn_id c))"
      using that(2) assms(2-4) by (intro chat_round) simp_all
    then show ?thesis
      using that(1) assms(1) by (simp add: viaParent_def)
  qed
  with first show ?thesis
    by blast
qed

theorem unknown_goal_routes_to_chat_witness:
  "parentNavigator redirectServices \<and> oobRecord chatHooks = Some unknownGoalInvitation
   \<and> connection chatHooks = Some \<lparr>conn_id = ''conn-1''\<rparr>
   \<and> nullish (goalCode unknownGoalInvitation) '''' \<notin> set GoalCodes
   \<and> notifications chatHooks = []
   \<and> calls (mount redirectServices chatHooks) = [ResetToChat ''conn-1'']
   \<and> \<not> inProgress (state (mount redirectServices chatHooks))
   \<and> mounted (run redirectServices [Update (waitingHooks\<lparr>notifications := [basicMessage]\<rparr>)]
        (mount redirectServices waitingHooks))
   \<and> inProgress (state (run redirectServices
        [Update (waitingHooks\<lparr>notifications := [basicMessage]\<rparr>)]
        (mount redirectServices waitingHooks)))
   \<and> calls (step redirectServices (Update chatHooks) (run redirectServices
        [Update (waitingHooks\<lparr>notifications := [basicMessage]\<rparr>)]
        (mount redirectServices waitingHooks)))
       = calls (run redirectServices [Update (waitingHooks\<lparr>notifications := [basicMessage]\<rparr>)]
           (mount redirectServices waitingHooks)) @ [ResetToChat ''conn-1'']
   \<and> \<not> inProgress (state (step redirectServices (Update chatHooks) (run redirectServices
        [Update (waitingHooks\<lparr>notifications := [basicMessage]\<rparr>)]
        (mount redirectServices waitingHooks))))"
proof -
  have a: "parentNavigator redirectServices" "oobRecord chatHooks = Some unknownGoalInvitation"
    "connection chatHooks = Some \<lparr>conn_id = ''conn-1''\<rparr>"
    "nullish (goalCode unknownGoalInvitation) '''' \<notin> set GoalCodes"
    by (simp_all add: model_defs example_defs)
  have b: "notifications chatHooks = []"
    "mounted (run redirectServices [Update (waitingHooks\<lparr>notifications := [basicMessage]\<rparr>)]
        (mount redirectServices waitingHooks))"
    "inProgress (state (run redirectServices
        [Update (waitingHooks\<lparr>notifications := [basicMessage]\<rparr>)]
        (mount redirectServices waitingHooks)))"
    by (simp_all add: model_defs example_defs)
  show ?thesis
    using a b unknown_goal_routes_to_chat [OF a,
        of "[Update (waitingHooks\<lparr>notifications := [basicMessage]\<rparr>)]" waitingHooks]
    by simp
qed

text \<open>C8, as amended. An invitation and a connection are there, and the matched
  notification is neither a \<open>W3cCredentialRecord\<close> nor an \<open>SdJwtVcRecord\<close>. Let the
  call be the replacement by the proof request with the id of the matched notification
  when the goal code is \<open>aries.vc.verify\<close> or \<open>aries.vc.verify.once\<close>, and by the
  credential offer with that id when it is \<open>aries.vc.issue\<close>. Then the process makes
  exactly this one call and clears \<open>inProgress\<close>, keeping the notification: when the
  screen mounts with these hook values and the matching loop selects the notification,
  and when these hook values are delivered to a mounted screen that is still in progress
  (after any sequence of events since mounting) and either has matched the notification
  before or matches it now.\<close>

theorem goal_code_resolves:
  assumes "oobRecord h = Some oob" and "connection h = Some c"
    and "record_type n \<noteq> W3cCredentialRecord" and "record_type n \<noteq> SdJwtVcRecord"
    and "(goalCode oob = Some proofRequestVerify \<or> goalCode oob = Some proofRequestVerifyOnce)
          \<and> call = ReplaceProofRequest (notif_id n)
        \<or> goalCode oob = Some credentialOffer \<and> call = ReplaceCredentialOffer (notif_id n)"
    and "i = run sv evs (mount sv h0)"
  shows "(matcherLoop (connection h) (oobRecord h) (notifications h) = Some n \<longrightarrow>
      calls (mount sv h) = [call]
      \<and> state (mount sv h) = initialState\<lparr>inProgress := False, notificationRecord := Some n\<rparr>)
    \<and> (mounted i \<and> inProgress (state i)
        \<and> (notificationRecord (state i) = Some n
            \<or> notificationRecord (state i) = None
              \<and> matcherLoop (connection h) (oobRecord h) (notifications h) = Some n) \<longrightarrow>
      calls (step sv (Update h) i) = calls i @ [call]
      \<and> state (step sv (Update h) i) = (state i)\<lparr>inProgress := False, notificationRecord := Some n\<rparr>)"
proof (intro conjI impI)
  assume loop: "matcherLoop (connection h) (oobRecord h) (notifications h) = Some n"
  have "flush sv Mounting h initialState
      = (initialState\<lparr>notificationRecord := Some n, inProgress := False\<rparr>, [call])"
    using assms(1,2,5) loop assms(3,4)
    by (intro match_and_route) (simp_all add: initialState_def)
  then show "calls (mount sv h) = [call]"
    and "state (mount sv h) = initialState\<lparr>inProgress := False, notificationRecord := Some n\<rparr>"
    by (simp_all add: mount_def startTimer_def)
next
  assume a: "mounted i \<and> inProgress (state i)
      \<and> (notificationRecord (state i) = Some n
          \<or> notificationRecord (state i) = None
            \<and> matcherLoop (connection h) (oobRecord h) (notifications h) = Some n)"
  let ?tr = "HooksChanged (hooks i)"
  have "flush sv ?tr h (state i)
      = ((state i)\<lparr>inProgress := False, notificationRecord := Some n\<rparr>, [call])"
  proof (cases "notificationRecord (state i)")
    case (Some n')
    then have n: "notificationRecord (state i) = Some n"
      using a by auto
    have routes: "routerEffect sv h (state i) = ([noFields\<lparr>next_inProgress := Some False\<rparr>], [call])"
      using a n assms(1,2,5) by (intro routerEffect_routes) simp_all
    have idle: "routerEffect sv (hooks i) (state i) = noEffect"
      using a assms(6) routerIdle_reachable [of sv evs h0] by (simp add: routerIdle_def)
    have "routerEffect sv h (state i) \<noteq> routerEffect sv (hooks i) (state i)"
      using routes idle by (simp add: noEffect_def)
    then have "routerDepsChanged ?tr h (state i)"
      using routerEffect_deps [of h "hooks i" "state i" "state i" sv] by auto
    then have "flush sv ?tr h (state i) = ((state i)\<lparr>inProgress := False\<rparr>, [call])"
      using a n routes matched_round [of "state i" n ?tr h sv call] by simp
    moreover have "(state i)\<lparr>inProgress := False, notificationRecord := Some n\<rparr>
        = (state i)\<lparr>inProgress := False\<rparr>"
      using n by simp
    ultimately show ?thesis
      by simp
  next
    case None
    then have loop: "matcherLoop (connection h) (oobRecord h) (notifications h) = Some n"
      using a by auto
    have "matcherLoop (connection (hooks i)) (oobRecord (hooks i)) (notifications (hooks i)) = None"
      using a None assms(6) matcherIdle_reachable [of sv evs h0] by (simp add: matcherIdle_def)
    then have "matcherDepsChanged ?tr h (state i)"
      using loop by auto
    then have "flush sv ?tr h (state i)
        = ((state i)\<lparr>notificationRecord := Some n, inProgress := False\<rparr>, [call])"
      using a None assms(1,2,5) loop assms(3,4) by (intro match_and_route) simp_all
    then show ?thesis
      by simp
  qed
  then show "calls (step sv (Update h) i) = calls i @ [call]"
    and "state (step sv (Update h) i) = (state i)\<lparr>inProgress := False, notificationRecord := Some n\<rparr>"
    using a by simp_all
qed

theorem goal_code_resolves_witness:
  "oobRecord offerHooks = Some issueInvitation
   \<and> connection offerHooks = Some \<lparr>conn_id = ''conn-1''\<rparr>
   \<and> goalCode issueInvitation = Some credentialOffer
   \<and> record_type offerNotification = CredentialExchangeRecord
   \<and> matcherLoop (connection offerHooks) (oobRecord offerHooks) (notifications offerHooks)
       = Some offerNotification
   \<and> calls (mount noticeServices offerHooks) = [ReplaceCredentialOffer ''cred-1'']
   \<and> state (mount noticeServices offerHooks)
       = initialState\<lparr>inProgress := False, notificationRecord := Some offerNotification\<rparr>
   \<and> mounted (mount noticeServices noInvitationHooks)
   \<and> inProgress (state (mount noticeServices noInvitationHooks))
   \<and> notificationRecord (state (mount noticeServices noInvitationHooks)) = Some offerNotification
   \<and> calls (step noticeServices (Update offerHooks) (mount noticeServices noInvitationHooks))
       = calls (mount noticeServices noInvitationHooks) @ [ReplaceCredentialOffer ''cred-1'']
   \<and> state (step noticeServices (Update offerHooks) (mount noticeServices noInvitationHooks))
       = (state (mount noticeServices noInvitationHooks))
           \<lparr>inProgress := False, notificationRecord := Some offerNotification\<rparr>
   \<and> oobRecord verifyHooks = Some verifyOnceInvitation
   \<and> connection verifyHooks = Some \<lparr>conn_id = ''conn-1''\<rparr>
   \<and> goalCode verifyOnceInvitation = Some proofRequestVerifyOnce
   \<and> record_type proofNotification = ProofExchangeRecord
   \<and> mounted (run noticeServices [Update (waitingHooks\<lparr>notifications := [basicMessage]\<rparr>)]
        (mount noticeServices waitingHooks))
   \<and> inProgress (state (run noticeServices [Update (waitingHooks\<lparr>notifications := [basicMessage]\<rparr>)]
        (mount noticeServices waitingHooks)))
   \<and> notificationRecord (state (run noticeServices
        [Update (waitingHooks\<lparr>notifications := [basicMessage]\<rparr>)]
        (mount noticeServices waitingHooks))) = None
   \<and> matcherLoop (connection verifyHooks) (oobRecord verifyHooks) (notifications verifyHooks)
       = Some proofNotification
   \<and> calls (step noticeServices (Update verifyHooks) (run noticeServices
        [Update (waitingHooks\<lparr>notifications := [basicMessage]\<rparr>)]
        (mount noticeServices waitingHooks)))
       = calls (run noticeServices [Update (waitingHooks\<lparr>notifications := [basicMessage]\<rparr>)]
           (mount noticeServices waitingHooks)) @ [ReplaceProofRequest ''proof-1'']
   \<and> state (step noticeServices (Update verifyHooks) (run noticeServices
        [Update (waitingHooks\<lparr>notifications := [basicMessage]\<rparr>)]
        (mount noticeServices waitingHooks)))
       = (state (run noticeServices [Update (waitingHooks\<lparr>notifications := [basicMessage]\<rparr>)]
           (mount noticeServices waitingHooks)))
           \<lparr>inProgress := False, notificationRecord := Some proofNotification\<rparr>"
proof -
  let ?i = "mount noticeServices noInvitationHooks"
  let ?j = "run noticeServices [Update (waitingHooks\<lparr>notifications := [basicMessage]\<rparr>)]
    (mount noticeServices waitingHooks)"
  have a: "oobRecord offerHooks = Some issueInvitation"
    "connection offerHooks = Some \<lparr>conn_id = ''conn-1''\<rparr>"
    "record_type offerNotification \<noteq> W3cCredentialRecord"
    "record_type offerNotification \<noteq> SdJwtVcRecord"
    "(goalCode issueInvitation = Some proofRequestVerify
        \<or> goalCode issueInvitation = Some proofRequestVerifyOnce)
       \<and> ReplaceCredentialOffer ''cred-1'' = ReplaceProofRequest (notif_id offerNotification)
     \<or> goalCode issueInvitation = Some credentialOffer
       \<and> ReplaceCredentialOffer ''cred-1'' = ReplaceCredentialOffer (notif_id offerNotification)"
    "?i = run noticeServices [] (mount noticeServices noInvitationHooks)"
    by (simp_all add: model_defs example_defs)
  have a': "goalCode issueInvitation = Some credentialOffer"
    "record_type offerNotification = CredentialExchangeRecord"
    "matcherLoop (connection offerHooks) (oobRecord offerHooks) (notifications offerHooks)
       = Some offerNotification"
    "mounted ?i" "inProgress (state ?i)" "notificationRecord (state ?i) = Some offerNotification"
    by (simp_all add: model_defs example_defs)
  have b: "oobRecord verifyHooks = Some verifyOnceInvitation"
    "connection verifyHooks = Some \<lparr>conn_id = ''conn-1''\<rparr>"
    "record_type proofNotification \<noteq> W3cCredentialRecord"
    "record_type proofNotification \<noteq> SdJwtVcRecord"
    "(goalCode verifyOnceInvitation = Some proofRequestVerify
        \<or> goalCode verifyOnceInvitation = Some proofRequestVerifyOnce)
       \<and> ReplaceProofRequest ''proof-1'' = ReplaceProofRequest (notif_id proofNotification)
     \<or> goalCode verifyOnceInvitation = Some credentialOffer
       \<and> ReplaceProofRequest ''proof-1'' = ReplaceCredentialOffer (notif_id proofNotification)"
    "?j = run noticeServices [Update (waitingHooks\<lparr>notifications := [basicMessage]\<rparr>)]
       (mount noticeServices waitingHooks)"
    by (simp_all add: model_defs example_defs)
  have b': "goalCode verifyOnceInvitation = Some proofRequestVerifyOnce"
    "record_type proofNotification = ProofExchangeRecord"
    "mounted ?j" "inProgress (state ?j)" "notificationRecord (state ?j) = None"
    "matcherLoop (connection verifyHooks) (oobRecord verifyHooks) (notifications verifyHooks)
       = Some proofNotification"
    by (simp_all add: model_defs example_defs)
  show ?thesis
    using a(1,2) a' b(1,2) b' goal_code_resolves [OF a] goal_code_resolves [OF b]
    by simp
qed

text \<open>C8 as stated fails for a \<open>W3cCredentialRecord\<close>: with a connection and the goal
  code \<open>aries.vc.issue\<close> (or \<open>aries.vc.verify.once\<close>), the screen that matches such a
  record calls the replacement by the credential offer (or the proof request) and, in the
  same flush, the replacement by the OpenID credential details.\<close>

theorem w3c_record_with_goal_code_counterexample:
  "oobRecord w3cOfferHooks = Some issueInvitation
   \<and> goalCode issueInvitation = Some ''aries.vc.issue''
   \<and> connection w3cOfferHooks = Some \<lparr>conn_id = ''conn-1''\<rparr>
   \<and> notificationRecord (state (mount noticeServices w3cOfferHooks)) = Some w3cNotification
   \<and> calls (mount noticeServices w3cOfferHooks)
       = [ReplaceCredentialOffer ''w3c-1'', ReplaceOpenIDCredentialDetails w3cNotification]
   \<and> calls (mount noticeServices (w3cOfferHooks\<lparr>oobRecord := Some verifyOnceInvitation\<rparr>))
       = [ReplaceProofRequest ''w3c-1'', ReplaceOpenIDCredentialDetails w3cNotification]"
  by (simp add: model_defs example_defs)

text \<open>C9. When the feed holds basic messages only, at mounting and in every update,
  the loop of the matching effect selects nothing, \<open>notificationRecord\<close> stays unset
  over every sequence of events, and the log holds no call of the routing steps that need
  a match (proof request, credential offer, OpenID credential details).\<close>

theorem basic_messages_never_match:
  assumes "basicOnly h" and "list_all basicOnlyEvent evs"
  shows "matcherLoop c oob (notifications h) = None
    \<and> notificationRecord (state (run sv evs (mount sv h))) = None
    \<and> list_all (\<lambda>c. \<not> matchCall c) (calls (run sv evs (mount sv h)))"
  using assms unmatched_run [OF unmatched_mount [OF assms(1)] assms(2), of sv sv]
  by (simp add: unmatched_def basicOnly_def matcherLoop_basic)

theorem basic_messages_never_match_witness:
  "basicOnly (chatHooks\<lparr>oobRecord := Some issueInvitation, notifications := [basicMessage]\<rparr>)
   \<and> list_all basicOnlyEvent
        [Update (chatHooks\<lparr>oobRecord := Some issueInvitation,
                  notifications := [basicMessage, basicMessage]\<rparr>), TimerFired 1]
   \<and> matcherLoop (Some \<lparr>conn_id = ''conn-1''\<rparr>) (Some issueInvitation)
        (notifications (chatHooks\<lparr>oobRecord := Some issueInvitation,
           notifications := [basicMessage]\<rparr>)) = None
   \<and> notificationRecord (state (run noticeServices
        [Update (chatHooks\<lparr>oobRecord := Some issueInvitation,
                  notifications := [basicMessage, basicMessage]\<rparr>), TimerFired 1]
        (mount noticeServices
           (chatHooks\<lparr>oobRecord := Some issueInvitation, notifications := [basicMessage]\<rparr>)))) = None
   \<and> list_all (\<lambda>c. \<not> matchCall c) (calls (run noticeServices
        [Update (chatHooks\<lparr>oobRecord := Some issueInvitation,
                  notifications := [basicMessage, basicMessage]\<rparr>), TimerFired 1]
        (mount noticeServices
           (chatHooks\<lparr>oobRecord := Some issueInvitation, notifications := [basicMessage]\<rparr>))))"
proof -
  have a: "basicOnly (chatHooks\<lparr>oobRecord := Some issueInvitation, notifications := [basicMessage]\<rparr>)"
    "list_all basicOnlyEvent
        [Update (chatHooks\<lparr>oobRecord := Some issueInvitation,
                  notifications := [basicMessage, basicMessage]\<rparr>), TimerFired 1]"
    by (simp_all add: basicOnly_def basicMessage_def)
  show ?thesis
    using a basic_messages_never_match [OF a, of "Some \<lparr>conn_id = ''conn-1''\<rparr>" "Some issueInvitation"
        noticeServices]
    by blast
qed

text \<open>C10. Once \<open>notificationRecord\<close> is set, no sequence of events replaces or
  clears it, and the matching effect does nothing (no dispatch, no call) in a render whose
  state has a notification or is no longer in progress.\<close>

theorem matched_notification_is_final:
  "(notificationRecord (state inst) = Some n
      \<longrightarrow> notificationRecord (state (run sv evs inst)) = Some n)
   \<and> (\<not> inProgress s \<or> notificationRecord s \<noteq> None \<longrightarrow> matcherEffect h s = noEffect)"
  by (simp add: run_keeps_match matcherEffect_def)

theorem matched_notification_is_final_witness:
  "notificationRecord (state (mount noticeServices offerHooks)) = Some offerNotification
   \<and> notificationRecord (state (run noticeServices
         [Update (offerHooks\<lparr>notifications := [w3cNotification, offerNotification]\<rparr>), TimerFired 1]
         (mount noticeServices offerHooks))) = Some offerNotification
   \<and> notificationRecord (state (mount noticeServices offerHooks)) \<noteq> None
   \<and> matcherEffect (offerHooks\<lparr>notifications := [w3cNotification, offerNotification]\<rparr>)
        (state (mount noticeServices offerHooks)) = noEffect"
proof -
  have m: "notificationRecord (state (mount noticeServices offerHooks)) = Some offerNotification"
    by (simp add: model_defs example_defs)
  show ?thesis
    using m matched_notification_is_final [of "mount noticeServices offerHooks" offerNotification
        noticeServices
        "[Update (offerHooks\<lparr>notifications := [w3cNotification, offerNotification]\<rparr>), TimerFired 1]"
        "state (mount noticeServices offerHooks)"
        "offerHooks\<lparr>notifications := [w3cNotification, offerNotification]\<rparr>"]
    by simp
qed

end
